theory Spec2Isabelle
  imports Complex_Main "HOL-Library.Multiset"
begin

section \<open>Quaternion norm (quaternion.h)\<close>

text \<open>
  The class \<open>Quaternion\<close> has the four public fields \<open>w, x, y, z\<close> of type \<open>double\<close>,
  and \<open>norm\<close> computes with them. A \<open>double\<close> is modelled as an IEEE 754 binary64 value:
  a finite number, an infinity with its sign (\<open>True\<close> for the negative one), or a NaN.
  The two zeros are not told apart and neither are the NaNs; this changes no comparison
  of a result with a number.
\<close>

datatype double = Number real | Infinite bool | Not_a_Number

text \<open>
  The number of binary digits of a positive integer, and with it the exponent of the
  leading bit of a positive real: \<open>floor_log2 a\<close> is the integer \<open>k\<close> with
  \<open>2^k \<le> a < 2^(k+1)\<close> (lemma \<open>floor_log2_bounds\<close>).
\<close>

function bit_length :: "int \<Rightarrow> int" where
  "bit_length n = (if n \<le> 0 then 0 else 1 + bit_length (n div 2))"
  by pat_completeness auto
termination
  by (relation "measure nat") auto

definition floor_log2 :: "real \<Rightarrow> int" where
  "floor_log2 a =
     (if 1 \<le> a then bit_length \<lfloor>a\<rfloor> - 1
      else - bit_length (\<lceil>1 / a\<rceil> - 1))"

text \<open>Rounding to the nearest integer, a tie going to the even one.\<close>

definition round_even :: "real \<Rightarrow> int" where
  "round_even x =
     (let f = \<lfloor>x\<rfloor>; d = x - of_int f
      in if d < 1 / 2 then f
         else if 1 / 2 < d then f + 1
         else if even f then f else f + 1)"

text \<open>
  The binary64 value of a real number in the default rounding mode (to nearest, ties to
  even): the number is rounded to a multiple of \<open>2^e\<close>, where \<open>e\<close> leaves 53 significant
  bits and is at least \<open>-1074\<close> (gradual underflow); a result of magnitude \<open>2^1024\<close> or
  more is the infinity of that sign.
\<close>

definition round_double :: "real \<Rightarrow> double" where
  "round_double r =
     (if r = 0 then Number 0
      else let e = max (floor_log2 \<bar>r\<bar> - 52) (- 1074);
               v = of_int (round_even (r / 2 powi e)) * 2 powi e
           in if 2 ^ 1024 \<le> \<bar>v\<bar> then Infinite (r < 0) else Number v)"

text \<open>
  The operators \<open>*\<close> and \<open>+\<close> of \<open>double\<close>: the exact product or sum, rounded once (each
  operation of the expression is rounded to binary64 on its own, neither fused nor kept
  in a wider format), with the rules of IEEE 754 for infinities and NaN.
\<close>

fun mul_double :: "double \<Rightarrow> double \<Rightarrow> double" where
  "mul_double (Number x) (Number y) = round_double (x * y)"
| "mul_double (Number x) (Infinite t) = (if x = 0 then Not_a_Number else Infinite ((x < 0) \<noteq> t))"
| "mul_double (Infinite s) (Number y) = (if y = 0 then Not_a_Number else Infinite (s \<noteq> (y < 0)))"
| "mul_double (Infinite s) (Infinite t) = Infinite (s \<noteq> t)"
| "mul_double _ _ = Not_a_Number"

fun add_double :: "double \<Rightarrow> double \<Rightarrow> double" where
  "add_double (Number x) (Number y) = round_double (x + y)"
| "add_double (Number x) (Infinite t) = Infinite t"
| "add_double (Infinite s) (Number y) = Infinite s"
| "add_double (Infinite s) (Infinite t) = (if s = t then Infinite s else Not_a_Number)"
| "add_double _ _ = Not_a_Number"

text \<open>The fields carry the prefix \<open>q_\<close> so that the one-letter names stay available.\<close>

record Quaternion =
  q_w :: double
  q_x :: double
  q_y :: double
  q_z :: double

text \<open>
  \<^verbatim>\<open>inline double norm( const Quaternion& q ) {
    return q.x * q.x + q.y * q.y + q.z * q.z + q.w * q.w; }\<close>
  (the name \<open>norm\<close> is taken by HOL). The sum associates to the left.
\<close>

definition norm_Quaternion :: "Quaternion \<Rightarrow> double" where
  "norm_Quaternion q =
     add_double (add_double (add_double (mul_double (q_x q) (q_x q)) (mul_double (q_y q) (q_y q)))
                            (mul_double (q_z q) (q_z q)))
                (mul_double (q_w q) (q_w q))"




text \<open>
  A real number that is a binary64 value: rounding leaves it alone. A double that is
  zero, positive or the positive infinity.
\<close>

definition exact_double :: "real \<Rightarrow> bool" where
  "exact_double r = (round_double r = Number r)"

fun nonneg_double :: "double \<Rightarrow> bool" where
  "nonneg_double (Number v) = (0 \<le> v)"
| "nonneg_double (Infinite s) = (\<not> s)"
| "nonneg_double Not_a_Number = False"

section \<open>Scene selection (init_system, main)\<close>

text \<open>
  Each \<open>init_*\<close> function of LocalRigidBodies.cpp fills \<open>bVector\<close> with the bodies of
  one built-in scene. The model names the function that is called; the numeric data of the
  bodies play no part in the selection.
\<close>

datatype scene =
    init_single_box
  | init_slide
  | init_small_pile
  | init_high_pile
  | init_big_pile
  | init_stack
  | init_combo
  | init_tall_stack

text \<open>The \<open>switch\<close> of \<open>init_system\<close>, case by case, with its \<open>default\<close> branch.\<close>

definition init_system :: "int \<Rightarrow> scene" where
  "init_system i =
     (if i = 0 then init_single_box
      else if i = 1 then init_slide
      else if i = 2 then init_small_pile
      else if i = 3 then init_high_pile
      else if i = 4 then init_big_pile
      else if i = 5 then init_stack
      else if i = 6 then init_combo
      else if i = 7 then init_tall_stack
      else init_small_pile)"

text \<open>
  \<open>main\<close>: \<^verbatim>\<open>if(argc > 1) init_system(atoi(argv[1])); else init_system(-1);\<close>
  \<open>argv\<close> is the argument vector with the program name at index 0, as \<open>glutInit\<close>
  leaves it (it removes the options it understands), so \<open>argc\<close> is its length. \<open>atoi\<close>
  belongs to the C library and is a parameter.
\<close>

definition main_scene :: "(string \<Rightarrow> int) \<Rightarrow> string list \<Rightarrow> scene" where
  "main_scene atoi argv =
     (if length argv > 1 then init_system (atoi (argv ! 1)) else init_system (- 1))"

text \<open>The built-in scenes in the order of their indices 0..7.\<close>

definition built_in_scenes :: "scene list" where
  "built_in_scenes =
     [init_single_box, init_slide, init_small_pile, init_high_pile,
      init_big_pile, init_stack, init_combo, init_tall_stack]"

text \<open>A toy \<open>atoi\<close> for concrete command lines: it reads one decimal digit.\<close>

definition digit_atoi :: "string \<Rightarrow> int" where
  "digit_atoi s = (case s of [] \<Rightarrow> 0 | c # _ \<Rightarrow> int (of_char c) - 48)"

section \<open>The simulation state (LocalRigidBodies.cpp)\<close>

text \<open>
  Bodies are heap objects reached through \<open>Body*\<close> pointers. Two vectors of such pointers
  exist: \<open>sys->bVector\<close>, owned by the \<open>System\<close> object, and the file-static \<open>bVector\<close>
  of LocalRigidBodies.cpp, a copy that is refreshed by \<open>sys->get_bodies(bVector)\<close>. Both
  point into the same objects, so the model has one store of bodies indexed by address and
  two lists of addresses.

  A body's state vector is split as the code splits it: the position part (position and
  orientation, \<open>POS_STATE_SIZE\<close> doubles) and the velocity part (momentum and angular
  momentum, \<open>VEL_STATE_SIZE\<close> doubles). The entries of these vectors are only copied
  by LocalRigidBodies.cpp; all arithmetic on them is done by the integrator and by the
  \<open>System\<close> class, which are parameters of the model, so here an entry is a real number
  and no rounding takes place. The derived quantities of a body and the scratch fields of
  Tarjan's algorithm are not modelled.
\<close>

type_synonym addr = nat

type_synonym vec = "real list"

record ContactInfo =
  c_b :: addr
  c_p :: vec
  c_normal :: vec

record Body =
  pos_state :: vec
  vel_state :: vec
  forces :: vec
  inv_mass :: real
  in_contact_list :: "ContactInfo list"

text \<open>
  The calls that \<open>idle_func\<close> and \<open>create_contact_graph\<close> make are logged, in order, so
  that statements about how often and in which order they happen can be made. The
  boolean of a detection call is its return value.
\<close>

datatype event =
    Call_rand
  | Call_get_state_pos nat
  | Call_get_state_vel nat
  | Call_set_state_pos nat
  | Call_set_state_vel nat
  | Call_zero_forces
  | Call_add_gravity
  | Call_integrate_vel nat
  | Call_integrate_pos nat
  | Call_collsion_detect bool
  | Call_contact_detect nat bool bool
  | Call_create_contact_graph bool
  | Call_topological_tarjan
  | Call_get_bodies

text \<open>
  \<open>prev_pos\<close> and \<open>prev_vel\<close> are the scratch arrays of \<open>idle_func\<close>, one slot per body
  (slot \<open>i\<close> is \<open>prev_pos + i*POS_STATE_SIZE\<close>). \<open>rand_calls\<close> counts the calls of
  \<open>rand()\<close> made so far.
\<close>

record world =
  heap :: "addr \<Rightarrow> Body"
  sys_bVector :: "addr list"
  bVector :: "addr list"
  prev_pos :: "vec list"
  prev_vel :: "vec list"
  rand_calls :: nat
  trace :: "event list"

text \<open>
  The collaborators whose code is not in LocalRigidBodies.cpp are parameters:
  \<^item> \<open>rand_value k\<close>: the value that the \<open>k\<close>-th call of \<open>rand()\<close> returns;
  \<^item> \<open>euler_vel\<close>, \<open>euler_pos\<close>: the velocity and position state of a body after one
    step \<open>dt\<close> of the integrator;
  \<^item> \<open>box_intersection this other\<close>: \<open>this->intersection_test(other, p, normal)\<close>,
    \<open>Some (p, normal)\<close> when it returns true;
  \<^item> \<open>tarjan_order\<close>: the order of \<open>sys->bVector\<close> that \<open>topological_tarjan\<close> leaves;
  \<^item> \<open>collision_impulses\<close>: what \<open>collsion_detect(prev_pos, prev_vel)\<close> returns and does
    to the two arrays and to the system;
  \<^item> \<open>contact_impulses\<close>: what \<open>contact_detect(count, shock)\<close> returns and does to the
    system;
  \<^item> \<open>gravity_force\<close>: the force accumulator of a body after \<open>add_gravity\<close>;
  \<^item> \<open>uninitialised\<close>: the content of a scratch slot before it is first written.
\<close>

record env =
  rand_value :: "nat \<Rightarrow> nat"
  euler_vel :: "Body \<Rightarrow> vec"
  euler_pos :: "Body \<Rightarrow> vec"
  box_intersection :: "Body \<Rightarrow> Body \<Rightarrow> (vec \<times> vec) option"
  tarjan_order :: "(addr \<Rightarrow> Body) \<Rightarrow> addr list \<Rightarrow> addr list"
  collision_impulses :: "vec list \<Rightarrow> vec list \<Rightarrow> (addr \<Rightarrow> Body) \<Rightarrow> addr list
     \<Rightarrow> bool \<times> vec list \<times> vec list \<times> (addr \<Rightarrow> Body) \<times> addr list"
  contact_impulses :: "nat \<Rightarrow> bool \<Rightarrow> (addr \<Rightarrow> Body) \<Rightarrow> addr list
     \<Rightarrow> bool \<times> (addr \<Rightarrow> Body) \<times> addr list"
  gravity_force :: "Body \<Rightarrow> vec"
  uninitialised :: vec

definition MAX_COLLISIONS :: nat where
  "MAX_COLLISIONS = 5"

definition MAX_CONTACTS :: nat where
  "MAX_CONTACTS = 10"

definition MAX_SHOCK_PROP :: nat where
  "MAX_SHOCK_PROP = 1"

subsection \<open>The System and integrator interface\<close>

text \<open>
  Modelled from the spec: \<open>System::num_bodies\<close> (System.h and System.cpp are missing), the
  number of bodies that the system owns.
\<close>

definition num_bodies :: "world \<Rightarrow> nat" where
  "num_bodies s = length (sys_bVector s)"

definition log_call :: "event \<Rightarrow> world \<Rightarrow> world" where
  "log_call e s = s\<lparr>trace := trace s @ [e]\<rparr>"

text \<open>
  Modelled from the spec: \<open>System::get_state_pos\<close>, \<open>get_state_vel\<close>, \<open>set_state_pos\<close>
  and \<open>set_state_vel\<close> (System.cpp is missing). From the spec's snapshot and restore steps
  and from the comments at their calls in \<open>idle_func\<close> (\<open>get x and v\<close>,
  \<open>set the system back to x and v\<close>): \<open>get\<close> copies the state of the \<open>i\<close>-th body of the
  system into the slot, \<open>set\<close> copies the slot into that body.
\<close>

definition get_state_pos :: "nat \<Rightarrow> world \<Rightarrow> world" where
  "get_state_pos i s =
     log_call (Call_get_state_pos i)
       (s\<lparr>prev_pos := (prev_pos s)[i := pos_state (heap s (sys_bVector s ! i))]\<rparr>)"

definition get_state_vel :: "nat \<Rightarrow> world \<Rightarrow> world" where
  "get_state_vel i s =
     log_call (Call_get_state_vel i)
       (s\<lparr>prev_vel := (prev_vel s)[i := vel_state (heap s (sys_bVector s ! i))]\<rparr>)"

definition set_state_pos :: "nat \<Rightarrow> world \<Rightarrow> world" where
  "set_state_pos i s =
     log_call (Call_set_state_pos i)
       (s\<lparr>heap := (heap s)(sys_bVector s ! i :=
              (heap s (sys_bVector s ! i))\<lparr>pos_state := prev_pos s ! i\<rparr>)\<rparr>)"

definition set_state_vel :: "nat \<Rightarrow> world \<Rightarrow> world" where
  "set_state_vel i s =
     log_call (Call_set_state_vel i)
       (s\<lparr>heap := (heap s)(sys_bVector s ! i :=
              (heap s (sys_bVector s ! i))\<lparr>vel_state := prev_vel s ! i\<rparr>)\<rparr>)"

text \<open>
  Modelled from the spec: \<open>RBIntegrator::integrate_vel\<close> and \<open>integrate_pos\<close>
  (integrator.h is missing): two operations on body \<open>i\<close> of the system, both no-ops if
  \<open>inv_mass = 0\<close>; the first writes the velocity state, the second the position state.
\<close>

definition integrate_vel :: "env \<Rightarrow> nat \<Rightarrow> world \<Rightarrow> world" where
  "integrate_vel E i s =
     (let a = sys_bVector s ! i; bd = heap s a in
      log_call (Call_integrate_vel i)
        (if inv_mass bd = 0 then s
         else s\<lparr>heap := (heap s)(a := bd\<lparr>vel_state := euler_vel E bd\<rparr>)\<rparr>))"

definition integrate_pos :: "env \<Rightarrow> nat \<Rightarrow> world \<Rightarrow> world" where
  "integrate_pos E i s =
     (let a = sys_bVector s ! i; bd = heap s a in
      log_call (Call_integrate_pos i)
        (if inv_mass bd = 0 then s
         else s\<lparr>heap := (heap s)(a := bd\<lparr>pos_state := euler_pos E bd\<rparr>)\<rparr>))"

text \<open>
  Modelled from the spec: \<open>System::zero_forces\<close> and \<open>System::add_gravity\<close> (System.cpp
  is missing): a loop over the bodies of the system that clears the force and torque
  accumulators (two 3-vectors), and a loop that adds gravity to them.
\<close>

definition zero_forces :: "world \<Rightarrow> world" where
  "zero_forces s =
     log_call Call_zero_forces
       (s\<lparr>heap := fold (\<lambda>a h. h(a := (h a)\<lparr>forces := replicate 6 0\<rparr>))
                    (sys_bVector s) (heap s)\<rparr>)"

definition add_gravity :: "env \<Rightarrow> world \<Rightarrow> world" where
  "add_gravity E s =
     log_call Call_add_gravity
       (s\<lparr>heap := fold (\<lambda>a h. h(a := (h a)\<lparr>forces := gravity_force E (h a)\<rparr>))
                    (sys_bVector s) (heap s)\<rparr>)"

text \<open>
  \<open>System::collsion_detect\<close> and \<open>System::contact_detect\<close> (System.cpp is missing) are
  the parameters \<open>collision_impulses\<close> and \<open>contact_impulses\<close>: they may change the
  bodies, the system's vector and, for the first, the two arrays it is handed. They
  return whether an impulse was applied.
\<close>

definition collsion_detect :: "env \<Rightarrow> world \<Rightarrow> bool \<times> world" where
  "collsion_detect E s =
     (case collision_impulses E (prev_pos s) (prev_vel s) (heap s) (sys_bVector s) of
        (r, pp, pv, h, bv) \<Rightarrow>
          (r, log_call (Call_collsion_detect r)
                (s\<lparr>heap := h, sys_bVector := bv, prev_pos := pp, prev_vel := pv\<rparr>)))"

definition contact_detect :: "env \<Rightarrow> nat \<Rightarrow> bool \<Rightarrow> world \<Rightarrow> bool \<times> world" where
  "contact_detect E cnt shock s =
     (case contact_impulses E cnt shock (heap s) (sys_bVector s) of
        (r, h, bv) \<Rightarrow>
          (r, log_call (Call_contact_detect cnt shock r)
                (s\<lparr>heap := h, sys_bVector := bv\<rparr>)))"

text \<open>
  Modelled from the spec: \<open>System::topological_tarjan\<close> and \<open>System::get_bodies\<close>
  (System.cpp is missing): the first sorts the system's bodies by the contact graph, the
  second copies the system's vector into the vector it is given.
\<close>

definition topological_tarjan :: "env \<Rightarrow> world \<Rightarrow> world" where
  "topological_tarjan E s =
     log_call Call_topological_tarjan
       (s\<lparr>sys_bVector := tarjan_order E (heap s) (sys_bVector s)\<rparr>)"

definition get_bodies :: "world \<Rightarrow> world" where
  "get_bodies s = log_call Call_get_bodies (s\<lparr>bVector := sys_bVector s\<rparr>)"

text \<open>
  The loop \<^verbatim>\<open>for(int i = 0; i < sys->num_bodies(); ++i) body(i);\<close> for a body that
  leaves the number of bodies alone.
\<close>

definition for_bodies :: "(nat \<Rightarrow> world \<Rightarrow> world) \<Rightarrow> world \<Rightarrow> world" where
  "for_bodies f s = fold f [0..<num_bodies s] s"

subsection \<open>create_contact_graph\<close>

text \<open>The first loop: \<^verbatim>\<open>bVector[i]->in_contact_list.clear();\<close>\<close>

definition clear_contact_list :: "nat \<Rightarrow> world \<Rightarrow> world" where
  "clear_contact_list i s =
     s\<lparr>heap := (heap s)(bVector s ! i := (heap s (bVector s ! i))\<lparr>in_contact_list := []\<rparr>)\<rparr>"

text \<open>
  The body of the inner loop over \<open>k\<close>: when \<open>k \<noteq> i\<close> and
  \<open>bVector[k]->intersection_test(bVector[i], p, normal)\<close> holds, the contact
  \<open>(bVector[k], p, normal)\<close> is pushed onto the list of \<open>bVector[i]\<close>.
\<close>

definition probe :: "env \<Rightarrow> nat \<Rightarrow> nat \<Rightarrow> world \<Rightarrow> world" where
  "probe E i k s =
     (if k \<noteq> i then
        (case box_intersection E (heap s (bVector s ! k)) (heap s (bVector s ! i)) of
           None \<Rightarrow> s
         | Some (p, n) \<Rightarrow>
             s\<lparr>heap := (heap s)(bVector s ! i :=
                  (heap s (bVector s ! i))\<lparr>in_contact_list :=
                     in_contact_list (heap s (bVector s ! i))
                       @ [\<lparr>c_b = bVector s ! k, c_p = p, c_normal = n\<rparr>]\<rparr>)\<rparr>)
      else s)"

text \<open>
  The body of the outer loop over \<open>i\<close> (lines 520 to 541). The test of \<open>inv_mass\<close> and
  the probes read the file-static \<open>bVector\<close>; the state accessors and the integrator take
  the index \<open>i\<close> and act on the \<open>i\<close>-th body of the system.
\<close>

definition probe_body :: "env \<Rightarrow> bool \<Rightarrow> nat \<Rightarrow> world \<Rightarrow> world" where
  "probe_body E is_initial i s =
     (if inv_mass (heap s (bVector s ! i)) \<noteq> 0 then
        (let s1 = get_state_pos i s;
             s2 = get_state_vel i s1;
             s3 = (if is_initial then integrate_vel E i s2 else s2);
             s4 = integrate_pos E i s3;
             s5 = for_bodies (probe E i) s4;
             s6 = set_state_pos i s5
         in set_state_vel i s6)
      else s)"

definition create_contact_graph :: "env \<Rightarrow> bool \<Rightarrow> world \<Rightarrow> world" where
  "create_contact_graph E is_initial s =
     (let s0 = log_call (Call_create_contact_graph is_initial) s;
          s1 = for_bodies clear_contact_list s0;
          s2 = for_bodies (probe_body E is_initial) s1;
          s3 = topological_tarjan E s2
      in get_bodies s3)"

subsection \<open>idle_func\<close>

text \<open>
  One iteration of the shuffle loop (lines 591 to 598). \<open>rand() % sys->num_bodies()\<close>
  with no body in the system divides by zero: the result is \<open>None\<close>.
\<close>

definition swap_attempt :: "env \<Rightarrow> world \<Rightarrow> world option" where
  "swap_attempt E s =
     (if num_bodies s = 0 then None
      else
        (let jj = rand_value E (rand_calls s) mod num_bodies s;
             kk = rand_value E (rand_calls s + 1) mod num_bodies s;
             s1 = log_call Call_rand (log_call Call_rand (s\<lparr>rand_calls := rand_calls s + 2\<rparr>))
         in if inv_mass (heap s (sys_bVector s ! jj)) > 0
               \<and> inv_mass (heap s (sys_bVector s ! kk)) > 0
            then Some (s1\<lparr>sys_bVector :=
                   (sys_bVector s)[jj := sys_bVector s ! kk, kk := sys_bVector s ! jj]\<rparr>)
            else Some s1))"

text \<open>\<^verbatim>\<open>for(int ii = 0; ii < 15; ii++)\<close>\<close>

function shuffle_loop :: "env \<Rightarrow> nat \<Rightarrow> world \<Rightarrow> world option" where
  "shuffle_loop E ii s =
     (if ii < 15 then
        (case swap_attempt E s of
           None \<Rightarrow> None
         | Some s' \<Rightarrow> shuffle_loop E (Suc ii) s')
      else Some s)"
  by pat_completeness auto
termination
  by (relation "measure (\<lambda>(E, ii, s). 15 - ii)") auto

definition shuffle :: "env \<Rightarrow> world \<Rightarrow> world option" where
  "shuffle E s = shuffle_loop E 0 s"

text \<open>
  \<^verbatim>\<open>double prev_pos[sys->size_pos()]; double prev_vel[sys->size_vel()];\<close>
  two fresh arrays with one slot per body.
\<close>

definition declare_buffers :: "env \<Rightarrow> world \<Rightarrow> world" where
  "declare_buffers E s =
     s\<lparr>prev_pos := replicate (num_bodies s) (uninitialised E),
       prev_vel := replicate (num_bodies s) (uninitialised E)\<rparr>"

text \<open>Lines 609 to 612: \<open>get x and v\<close>.\<close>

definition snapshot :: "world \<Rightarrow> world" where
  "snapshot s = for_bodies (\<lambda>i s. get_state_vel i (get_state_pos i s)) s"

text \<open>Lines 627 to 630 and 641 to 644: \<open>set the system back to x and v\<close>.\<close>

definition restore_all :: "world \<Rightarrow> world" where
  "restore_all s = for_bodies (\<lambda>i s. set_state_vel i (set_state_pos i s)) s"

text \<open>Lines 617 to 620 and 634 to 637: velocity and position of every body.\<close>

definition integrate_all :: "env \<Rightarrow> world \<Rightarrow> world" where
  "integrate_all E s = for_bodies (\<lambda>i s. integrate_pos E i (integrate_vel E i s)) s"

text \<open>The body of the collision loop (lines 625 to 637).\<close>

definition collision_pass :: "env \<Rightarrow> world \<Rightarrow> world" where
  "collision_pass E s = integrate_all E (add_gravity E (zero_forces (restore_all s)))"

text \<open>
  \<^verbatim>\<open>while(sys->collsion_detect(prev_pos, prev_vel) && count < MAX_COLLISIONS){ count++; ... }\<close>
  The detection is the left operand of \<open>&&\<close>: it runs before the counter is tested. The
  loop returns the counter and the state.
\<close>

function collision_loop :: "env \<Rightarrow> nat \<Rightarrow> world \<Rightarrow> nat \<times> world" where
  "collision_loop E cnt s =
     (if fst (collsion_detect E s) \<and> cnt < MAX_COLLISIONS
      then collision_loop E (Suc cnt) (collision_pass E (snd (collsion_detect E s)))
      else (cnt, snd (collsion_detect E s)))"
  by pat_completeness auto
termination
  by (relation "measure (\<lambda>(E, cnt, s). MAX_COLLISIONS - cnt)") auto

text \<open>
  \<^verbatim>\<open>for(count = 0; sys->contact_detect(count, false) && count < MAX_CONTACTS; count++)
    create_contact_graph(prev_pos, prev_vel, false);\<close>
\<close>

function contact_loop :: "env \<Rightarrow> nat \<Rightarrow> world \<Rightarrow> nat \<times> world" where
  "contact_loop E cnt s =
     (if fst (contact_detect E cnt False s) \<and> cnt < MAX_CONTACTS
      then contact_loop E (Suc cnt)
             (create_contact_graph E False (snd (contact_detect E cnt False s)))
      else (cnt, snd (contact_detect E cnt False s)))"
  by pat_completeness auto
termination
  by (relation "measure (\<lambda>(E, cnt, s). MAX_CONTACTS - cnt)") auto

text \<open>
  \<^verbatim>\<open>for(;sys->contact_detect(count, true) && count < MAX_SHOCK_PROP; count++)
    create_contact_graph(prev_pos, prev_vel, false);\<close>
\<close>

function shock_loop :: "env \<Rightarrow> nat \<Rightarrow> world \<Rightarrow> nat \<times> world" where
  "shock_loop E cnt s =
     (if fst (contact_detect E cnt True s) \<and> cnt < MAX_SHOCK_PROP
      then shock_loop E (Suc cnt)
             (create_contact_graph E False (snd (contact_detect E cnt True s)))
      else (cnt, snd (contact_detect E cnt True s)))"
  by pat_completeness auto
termination
  by (relation "measure (\<lambda>(E, cnt, s). MAX_SHOCK_PROP - cnt)") auto

text \<open>Lines 671 to 677: \<^verbatim>\<open>if(count == MAX_CONTACTS){ ... }\<close>\<close>

definition shock_propagation :: "env \<Rightarrow> nat \<times> world \<Rightarrow> nat \<times> world" where
  "shock_propagation E cs =
     (if fst cs = MAX_CONTACTS then shock_loop E (fst cs) (snd cs) else cs)"

text \<open>
  The phases of one tick after the shuffle, in the order of the source. The timer,
  frame counter and display calls of \<open>idle_func\<close> are left out (\<open>reset_time\<close> is never
  set, so the reset inside the frame-rate block never runs).
\<close>

definition tentative_step :: "env \<Rightarrow> world \<Rightarrow> world" where
  "tentative_step E s = integrate_all E (add_gravity E (zero_forces s))"

definition before_collisions :: "env \<Rightarrow> world \<Rightarrow> world" where
  "before_collisions E s = tentative_step E (snapshot (declare_buffers E s))"

definition after_collisions :: "env \<Rightarrow> world \<Rightarrow> world" where
  "after_collisions E s = add_gravity E (zero_forces (restore_all s))"

definition before_contacts :: "env \<Rightarrow> world \<Rightarrow> world" where
  "before_contacts E s =
     for_bodies (integrate_vel E) (create_contact_graph E True s)"

definition contact_phase :: "env \<Rightarrow> world \<Rightarrow> nat \<times> world" where
  "contact_phase E s =
     (let cs = contact_loop E 0 s
      in (fst cs, create_contact_graph E False (snd cs)))"

definition contact_loop_entry :: "env \<Rightarrow> world \<Rightarrow> world" where
  "contact_loop_entry E s =
     (let s1 = before_collisions E s;
          s2 = snd (collision_loop E 0 s1);
          s3 = after_collisions E s2
      in before_contacts E s3)"

definition tick_after_shuffle :: "env \<Rightarrow> world \<Rightarrow> world" where
  "tick_after_shuffle E s =
     (let s4 = contact_loop_entry E s;
          cs = shock_propagation E (contact_phase E s4)
      in for_bodies (integrate_pos E) (snd cs))"

definition idle_func :: "env \<Rightarrow> world \<Rightarrow> world option" where
  "idle_func E s =
     (case shuffle E s of
        None \<Rightarrow> None
      | Some s1 \<Rightarrow> Some (tick_after_shuffle E s1))"

subsection \<open>Auxiliary notions for the statements\<close>

text \<open>The two indices that one swap attempt draws.\<close>

definition attempt_jj :: "env \<Rightarrow> world \<Rightarrow> nat" where
  "attempt_jj E s = rand_value E (rand_calls s) mod num_bodies s"

definition attempt_kk :: "env \<Rightarrow> world \<Rightarrow> nat" where
  "attempt_kk E s = rand_value E (rand_calls s + 1) mod num_bodies s"

text \<open>A swap attempt after a run that may already have failed.\<close>

definition then_attempt :: "env \<Rightarrow> world option \<Rightarrow> world option" where
  "then_attempt E r = (case r of None \<Rightarrow> None | Some s \<Rightarrow> swap_attempt E s)"

subsection \<open>A small concrete system\<close>

text \<open>
  A fixed floor at address 0 and two movable boxes at addresses 1 and 2, in one
  dimension. The first two random numbers are 1 and 2, all later ones are 0, so the first
  swap attempt exchanges the two boxes and the other fourteen pick the floor twice.
\<close>

definition toy_body :: "addr \<Rightarrow> Body" where
  "toy_body a =
     \<lparr>pos_state = [real a], vel_state = [0], forces = [],
      inv_mass = (if a = 0 then 0 else 1), in_contact_list = []\<rparr>"

definition toy_env :: env where
  "toy_env =
     \<lparr>rand_value = (\<lambda>k. if k = 0 then 1 else if k = 1 then 2 else 0),
      euler_vel = (\<lambda>bd. map (\<lambda>v. v - 1) (vel_state bd)),
      euler_pos = (\<lambda>bd. map2 (+) (pos_state bd) (vel_state bd)),
      box_intersection = (\<lambda>this other.
         if \<bar>hd (pos_state this) - hd (pos_state other)\<bar> \<le> 1
         then Some (pos_state other, [1]) else None),
      tarjan_order = (\<lambda>h bv. bv),
      collision_impulses = (\<lambda>pp pv h bv. (False, pp, pv, h, bv)),
      contact_impulses = (\<lambda>c sh h bv. (False, h, bv)),
      gravity_force = (\<lambda>bd. [- 1]),
      uninitialised = []\<rparr>"

definition toy_world :: world where
  "toy_world =
     \<lparr>heap = toy_body, sys_bVector = [0, 1, 2], bVector = [0, 1, 2],
      prev_pos = [], prev_vel = [], rand_calls = 0, trace = []\<rparr>"

text \<open>
  The small system in the middle of a tick: the scratch arrays hold a snapshot
  (position 9 and velocity 9 in every slot) that differs from the current state of the
  bodies (positions 0, 1, 2 and velocity 0).
\<close>

definition stale_world :: world where
  "stale_world = toy_world\<lparr>prev_pos := [[9], [9], [9]], prev_vel := [[9], [9], [9]]\<rparr>"

text \<open>
  The system with body \<open>i\<close> alone advanced by \<open>dt\<close> from its current state, as lines
  526 to 528 advance it (the scratch arrays and the log apart).
\<close>

definition advanced :: "env \<Rightarrow> bool \<Rightarrow> nat \<Rightarrow> world \<Rightarrow> world" where
  "advanced E is_initial i s =
     integrate_pos E i (if is_initial then integrate_vel E i s else s)"

subsection \<open>Reading the log\<close>

text \<open>The calls logged between two states.\<close>

definition new_calls :: "world \<Rightarrow> world \<Rightarrow> event list" where
  "new_calls s s' = drop (length (trace s)) (trace s')"

definition extends :: "world \<Rightarrow> world \<Rightarrow> bool" where
  "extends s s' = (take (length (trace s)) (trace s') = trace s)"

text \<open>
  The primitive calls are those of the state accessors, the force accumulators, the
  integrator, the sort and the copy of the body vector. The others, the major calls, are
  \<open>rand\<close>, the two detections and \<open>create_contact_graph\<close>.
\<close>

fun primitive_call :: "event \<Rightarrow> bool" where
  "primitive_call Call_rand = False"
| "primitive_call (Call_collsion_detect r) = False"
| "primitive_call (Call_contact_detect c sh r) = False"
| "primitive_call (Call_create_contact_graph b) = False"
| "primitive_call e = True"

definition major_calls :: "world \<Rightarrow> world \<Rightarrow> event list" where
  "major_calls s s' = filter (\<lambda>e. \<not> primitive_call e) (new_calls s s')"

text \<open>The calls \<open>contact_detect(count, true)\<close>: the shock-propagation passes.\<close>

fun shock_call :: "event \<Rightarrow> bool" where
  "shock_call (Call_contact_detect c sh r) = sh"
| "shock_call e = False"

text \<open>The calls \<open>contact_detect(count, false)\<close>.\<close>

fun plain_contact_detect :: "event \<Rightarrow> bool" where
  "plain_contact_detect (Call_contact_detect c sh r) = (\<not> sh)"
| "plain_contact_detect e = False"

text \<open>The calls of \<open>contact_detect\<close> and of \<open>create_contact_graph\<close>.\<close>

fun contact_call :: "event \<Rightarrow> bool" where
  "contact_call (Call_contact_detect c sh r) = True"
| "contact_call (Call_create_contact_graph b) = True"
| "contact_call e = False"

text \<open>The calls of \<open>collsion_detect\<close>.\<close>

fun collsion_call :: "event \<Rightarrow> bool" where
  "collsion_call (Call_collsion_detect r) = True"
| "collsion_call e = False"

text \<open>One pass of a contact loop that goes on: a detection that applied an impulse, then a rebuild.\<close>

definition contact_pass_calls :: "bool \<Rightarrow> nat \<Rightarrow> event list" where
  "contact_pass_calls shock k = [Call_contact_detect k shock True, Call_create_contact_graph False]"

text \<open>A step that logs primitive calls only.\<close>

definition quiet :: "world \<Rightarrow> world \<Rightarrow> bool" where
  "quiet s s' = (extends s s' \<and> major_calls s s' = [])"

text \<open>A detection of the collision loop followed by the body of the loop.\<close>

definition collision_round :: "env \<Rightarrow> world \<Rightarrow> world" where
  "collision_round E s = collision_pass E (snd (collsion_detect E s))"

text \<open>
  The value of \<open>count\<close> with which the collision loop of a tick ends, and the value with
  which its contact loop (line 663) ends; the argument is the state after the shuffle.
\<close>

definition collision_passes :: "env \<Rightarrow> world \<Rightarrow> nat" where
  "collision_passes E s = fst (collision_loop E 0 (before_collisions E s))"

definition contact_passes :: "env \<Rightarrow> world \<Rightarrow> nat" where
  "contact_passes E s = fst (contact_loop E 0 (contact_loop_entry E s))"

text \<open>
  The small system with detections that always apply an impulse, and the small system
  after its shuffle.
\<close>

definition busy_env :: env where
  "busy_env = toy_env\<lparr>contact_impulses := (\<lambda>c sh h bv. (True, h, bv)),
                       collision_impulses := (\<lambda>pp pv h bv. (True, pp, pv, h, bv))\<rparr>"

definition shuffled_world :: world where
  "shuffled_world =
     toy_world\<lparr>sys_bVector := [0, 2, 1], rand_calls := 30, trace := replicate 30 Call_rand\<rparr>"

text \<open>
  Body \<open>i\<close> of the system with its position and velocity state copied from slot \<open>i\<close> of
  the scratch arrays, as \<open>set_state_pos\<close> and \<open>set_state_vel\<close> leave it (lines 628, 629
  and 642, 643).
\<close>

definition restored :: "world \<Rightarrow> nat \<Rightarrow> Body" where
  "restored t i =
     (heap t (sys_bVector t ! i))\<lparr>pos_state := prev_pos t ! i, vel_state := prev_vel t ! i\<rparr>"

text \<open>A body after \<open>zero_forces\<close> and \<open>add_gravity\<close>.\<close>

definition with_gravity :: "env \<Rightarrow> Body \<Rightarrow> Body" where
  "with_gravity E bd = bd\<lparr>forces := gravity_force E (bd\<lparr>forces := replicate 6 0\<rparr>)\<rparr>"

text \<open>
  A body after \<open>integrate_vel\<close> followed by \<open>integrate_pos\<close>: the position step uses the
  new velocity; a body with \<open>inv_mass = 0\<close> is left alone.
\<close>

definition euler_step :: "env \<Rightarrow> Body \<Rightarrow> Body" where
  "euler_step E bd =
     (if inv_mass bd = 0 then bd
      else bd\<lparr>vel_state := euler_vel E bd,
              pos_state := euler_pos E (bd\<lparr>vel_state := euler_vel E bd\<rparr>)\<rparr>)"

text \<open>
  The small system with a collision detection that always applies an impulse and stores
  it in \<open>prev_vel\<close>: each call adds 1 to every velocity of the array.
\<close>

definition kick_env :: env where
  "kick_env = toy_env\<lparr>collision_impulses :=
     (\<lambda>pp pv h bv. (True, pp, map (map (\<lambda>v. v + 1)) pv, h, bv))\<rparr>"

section \<open>Theorems\<close>

subsection \<open>Quaternion norm\<close>

declare bit_length.simps [simp del]

text \<open>The rules that evaluate a rounding at a given number.\<close>

lemmas round_double_eval = round_double_def floor_log2_def bit_length.simps round_even_def Let_def

lemma bit_length_bounds:
  "0 < n \<Longrightarrow> 0 < bit_length n \<and> 2 ^ nat (bit_length n - 1) \<le> n \<and> n < 2 ^ nat (bit_length n)"
proof (induction n rule: bit_length.induct)
  case (1 n)
  show ?case
  proof (cases "n = 1")
    case True
    then show ?thesis by (simp add: bit_length.simps)
  next
    case False
    with 1 have pos: "0 < n div 2" by simp
    with 1 have IH: "0 < bit_length (n div 2)" "2 ^ nat (bit_length (n div 2) - 1) \<le> n div 2"
      "n div 2 < 2 ^ nat (bit_length (n div 2))" by simp_all
    have bl: "bit_length n = 1 + bit_length (n div 2)"
      using 1 by (subst bit_length.simps) simp
    have e1: "nat (bit_length n - 1) = Suc (nat (bit_length (n div 2) - 1))"
      using bl IH(1) by simp
    have e2: "nat (bit_length n) = Suc (nat (bit_length (n div 2)))"
      using bl IH(1) by simp
    show ?thesis using IH bl unfolding e1 e2 by simp presburger
  qed
qed

text \<open>
  Examples: a tie goes to the neighbour with the even last bit, and \<open>1/10\<close> and \<open>-1/3\<close>
  round to the binary64 numbers that the literals \<open>0.1\<close> and \<open>-1.0/3\<close> denote.
\<close>

lemma round_double_examples:
  "round_double (1 + 1 / 2 ^ 53) = Number 1"
  "round_double (1 + 3 / 2 ^ 53) = Number (1 + 1 / 2 ^ 51)"
  "round_double (1 / 10) = Number (3602879701896397 / 2 ^ 55)"
  "round_double (- (1 / 3)) = Number (- (6004799503160661 / 2 ^ 54))"
  by (simp_all add: round_double_eval)

text \<open>\<open>floor_log2\<close> is the exponent of the leading bit.\<close>

lemma floor_log2_bounds:
  assumes "0 < a"
  shows "2 powi (floor_log2 a) \<le> a \<and> a < 2 powi (floor_log2 a + 1)"
proof (cases "1 \<le> a")
  case True
  define n where "n = \<lfloor>a\<rfloor>"
  define k where "k = bit_length n"
  have n: "0 < n" using True by (simp add: n_def)
  have k: "0 < k" "2 ^ nat (k - 1) \<le> n" "n < 2 ^ nat k"
    using bit_length_bounds [OF n] by (simp_all add: k_def)
  have fl: "floor_log2 a = k - 1" using True by (simp add: floor_log2_def k_def n_def)
  have "(2::real) powi (k - 1) = of_int (2 ^ nat (k - 1))"
    using k(1) by (simp add: power_int_nonneg_exp)
  also have "\<dots> \<le> of_int n" using k(2) by (simp only: of_int_le_iff)
  also have "\<dots> \<le> a" by (simp add: n_def)
  finally have lo: "2 powi (k - 1) \<le> a" .
  have "a < of_int (n + 1)" by (simp add: n_def)
  also have "\<dots> \<le> of_int (2 ^ nat k)" using k(3) by (simp only: of_int_le_iff)
  also have "\<dots> = 2 powi k" using k(1) by (simp add: power_int_nonneg_exp)
  finally have hi: "a < 2 powi k" .
  show ?thesis using lo hi by (simp add: fl)
next
  case False
  define x where "x = 1 / a"
  define n where "n = \<lceil>x\<rceil> - 1"
  define k where "k = bit_length n"
  have x: "1 < x" using False assms by (simp add: x_def)
  have a: "a = 1 / x" by (simp add: x_def)
  have n: "0 < n" using x by (simp add: n_def less_ceiling_iff)
  have k: "0 < k" "2 ^ nat (k - 1) \<le> n" "n < 2 ^ nat k"
    using bit_length_bounds [OF n] by (simp_all add: k_def)
  have fl: "floor_log2 a = - k" using False by (simp add: floor_log2_def k_def n_def x_def)
  have nx: "of_int n < x" using ceiling_correct [of x] by (simp add: n_def)
  have xn: "x \<le> of_int (n + 1)" by (simp add: n_def)
  have "x \<le> of_int (n + 1)" by (rule xn)
  also have "\<dots> \<le> of_int (2 ^ nat k)" using k(3) by (simp only: of_int_le_iff)
  also have "\<dots> = 2 powi k" using k(1) by (simp add: power_int_nonneg_exp)
  finally have "x \<le> 2 powi k" .
  then have "1 / 2 powi k \<le> 1 / x" using x by (simp add: frac_le)
  then have lo: "2 powi (- k) \<le> a" by (simp add: a power_int_minus_divide)
  have "(2::real) powi (k - 1) = of_int (2 ^ nat (k - 1))"
    using k(1) by (simp add: power_int_nonneg_exp)
  also have "\<dots> \<le> of_int n" using k(2) by (simp only: of_int_le_iff)
  also have "\<dots> < x" by (rule nx)
  finally have "2 powi (k - 1) < x" .
  then have "1 / x < 1 / 2 powi (k - 1)" by (simp add: frac_less2)
  moreover have "(2::real) powi (- k + 1) = 1 / 2 powi (k - 1)"
    using power_int_minus_divide [of "2::real" "k - 1"] by simp
  ultimately have hi: "a < 2 powi (- k + 1)" by (simp add: a)
  show ?thesis using lo hi by (simp add: fl)
qed

text \<open>
  Rounding is the identity on the binary64 numbers (an integer of magnitude below
  \<open>2^53\<close> times a power of two not below \<open>2^-1074\<close>, the product below \<open>2^1024\<close>), it
  moves a number by at most half a unit of the last place, it keeps the sign, and it
  overflows from \<open>2^1024\<close> on.
\<close>

lemma round_even_of_int: "round_even (of_int m) = m"
  by (simp add: round_even_def)

lemma round_even_error: "\<bar>of_int (round_even x) - x\<bar> \<le> 1 / 2"
proof -
  have "of_int \<lfloor>x\<rfloor> \<le> x" "x < of_int \<lfloor>x\<rfloor> + 1" by linarith+
  then show ?thesis by (auto simp add: round_even_def Let_def)
qed

lemma round_even_nonneg: "0 \<le> x \<Longrightarrow> 0 \<le> round_even x"
  by (auto simp add: round_even_def Let_def)

lemma round_double_representable:
  assumes m: "\<bar>m\<bar> < 2 ^ 53" and e: "- 1074 \<le> e"
    and small: "\<bar>of_int m * 2 powi e\<bar> < (2::real) ^ 1024"
  shows "round_double (of_int m * 2 powi e) = Number (of_int m * 2 powi e)"
proof (cases "m = 0")
  case True
  then show ?thesis by (simp add: round_double_def)
next
  case False
  define r :: real where "r = of_int m * 2 powi e"
  define E where "E = max (floor_log2 \<bar>r\<bar> - 52) (- 1074)"
  have r0: "r \<noteq> 0" using False by (simp add: r_def)
  have "\<bar>r\<bar> = of_int \<bar>m\<bar> * 2 powi e" by (simp add: r_def abs_mult)
  also have "\<dots> < of_int (2 ^ 53) * 2 powi e"
    using m by (intro mult_strict_right_mono) (simp_all only: of_int_less_iff, simp)
  also have "\<dots> = 2 powi (e + 53)" by (simp add: power_int_add)
  finally have up: "\<bar>r\<bar> < 2 powi (e + 53)" .
  have "2 powi (floor_log2 \<bar>r\<bar>) \<le> \<bar>r\<bar>" using floor_log2_bounds [of "\<bar>r\<bar>"] r0 by simp
  with up have "(2::real) powi (floor_log2 \<bar>r\<bar>) < 2 powi (e + 53)" by simp
  then have "floor_log2 \<bar>r\<bar> < e + 53"
    using power_int_increasing [of "e + 53" "floor_log2 \<bar>r\<bar>" "2::real"] by (cases "floor_log2 \<bar>r\<bar> < e + 53") simp_all
  with e have E: "E \<le> e" by (simp add: E_def)
  have split: "(2::real) powi e = 2 powi (e - E) * 2 powi E"
    using power_int_add [of "2::real" "e - E" E] by simp
  have pw: "(2::real) powi (e - E) = of_int (2 ^ nat (e - E))"
    using E by (simp add: power_int_nonneg_exp)
  have "r / 2 powi E = of_int m * 2 powi (e - E)" by (simp add: r_def split)
  also have "\<dots> = of_int (m * 2 ^ nat (e - E))" by (simp add: pw)
  finally have q: "r / 2 powi E = of_int (m * 2 ^ nat (e - E))" .
  have v: "of_int (round_even (r / 2 powi E)) * 2 powi E = r"
    unfolding q round_even_of_int using pw by (simp add: r_def split)
  show ?thesis
    using r0 small v unfolding r_def [symmetric]
    by (simp add: round_double_def Let_def E_def [symmetric])
qed

lemma round_even_ge_int: "of_int n \<le> x \<Longrightarrow> n \<le> round_even x"
proof -
  assume "of_int n \<le> x"
  then have "n \<le> \<lfloor>x\<rfloor>" by (simp add: le_floor_iff)
  then show ?thesis by (auto simp add: round_even_def Let_def)
qed

lemma round_double_nearest:
  assumes "round_double r = Number v"
  shows "\<bar>v - r\<bar> \<le> 2 powi (max (floor_log2 \<bar>r\<bar> - 52) (- 1074)) / 2"
proof (cases "r = 0")
  case True
  with assms show ?thesis by (simp add: round_double_def)
next
  case False
  define P :: real where "P = 2 powi (max (floor_log2 \<bar>r\<bar> - 52) (- 1074))"
  have P: "0 < P" by (simp add: P_def)
  have v: "v = of_int (round_even (r / P)) * P"
    using assms False by (simp add: round_double_def Let_def P_def split: if_splits)
  have "v - r = (of_int (round_even (r / P)) - r / P) * P"
    using P by (simp add: v left_diff_distrib)
  then have "\<bar>v - r\<bar> = \<bar>of_int (round_even (r / P)) - r / P\<bar> * P"
    using P by (simp add: abs_mult)
  also have "\<dots> \<le> 1 / 2 * P"
    using round_even_error [of "r / P"] P by (intro mult_right_mono) simp_all
  finally show ?thesis by (simp add: P_def)
qed

lemma round_double_nonneg: "0 \<le> r \<Longrightarrow> nonneg_double (round_double r)"
proof -
  assume r: "0 \<le> r"
  have "0 \<le> r / 2 powi e" for e :: int using r by simp
  then have "0 \<le> round_even (r / 2 powi e)" for e :: int by (rule round_even_nonneg)
  then have "0 \<le> real_of_int (round_even (r / 2 powi e)) * 2 powi e" for e :: int by simp
  then show ?thesis using r by (simp add: round_double_def Let_def)
qed

lemma round_double_overflow:
  assumes big: "2 ^ 1024 \<le> r"
  shows "round_double r = Infinite False"
proof -
  define E where "E = max (floor_log2 r - 52) (- 1074)"
  define P :: real where "P = 2 powi E"
  have r: "0 < r" using big by (rule less_le_trans [rotated]) simp
  have P: "0 < P" by (simp add: P_def)
  have "(2::real) powi 1024 \<le> r" using big by simp
  also have "r < 2 powi (floor_log2 r + 1)" using floor_log2_bounds [OF r] by simp
  finally have "(1024::int) < floor_log2 r + 1"
    using power_int_increasing [of "floor_log2 r + 1" 1024 "2::real"]
    by (cases "1024 < floor_log2 r + 1") simp_all
  then have E: "E = floor_log2 r - 52" "972 \<le> E" using r by (simp_all add: E_def)
  have lo: "2 powi (floor_log2 r) \<le> r" using floor_log2_bounds [OF r] by simp
  have "(2::real) powi 52 * P = 2 powi (floor_log2 r)"
    using power_int_add [of "2::real" 52 E] by (simp add: P_def E(1))
  with lo have "of_int (2 ^ 52) \<le> r / P" using P by (simp add: pos_le_divide_eq)
  then have m: "2 ^ 52 \<le> round_even (r / P)" by (rule round_even_ge_int)
  have "(2::real) ^ 1024 = 2 powi 52 * 2 powi 972" by simp
  also have "\<dots> \<le> 2 powi 52 * P"
    unfolding P_def using E(2) by (intro mult_left_mono power_int_increasing) simp_all
  also have "\<dots> \<le> of_int (round_even (r / P)) * P"
  proof -
    have "(2::real) powi 52 = of_int (2 ^ 52)" by simp
    also have "\<dots> \<le> of_int (round_even (r / P))" using m by (simp only: of_int_le_iff)
    finally show ?thesis using P by (intro mult_right_mono) simp_all
  qed
  finally have v: "2 ^ 1024 \<le> \<bar>of_int (round_even (r / P)) * P\<bar>" by simp
  have "round_double r =
    (if 2 ^ 1024 \<le> \<bar>of_int (round_even (r / P)) * P\<bar> then Infinite False
     else Number (of_int (round_even (r / P)) * P))"
    using r by (simp add: round_double_def Let_def E_def P_def)
  with v show ?thesis by (simp only: if_True)
qed

lemma mul_double_self_nonneg: "nonneg_double (mul_double (Number x) (Number x))"
  by (simp add: round_double_nonneg)


lemma norm_Quaternion_finite:
  "norm_Quaternion \<lparr>q_w = Number w, q_x = Number x, q_y = Number y, q_z = Number z\<rparr> =
     add_double (add_double (add_double (round_double (x * x)) (round_double (y * y)))
                            (round_double (z * z)))
                (round_double (w * w))"
  by (simp add: norm_Quaternion_def)



lemma big_power_exact: "exact_double (2 ^ 600)"
  using round_double_representable [of 1 600] by (simp add: exact_double_def)

lemma norm_Quaternion_overflow:
  "norm_Quaternion \<lparr>q_w = Number (2 ^ 600), q_x = Number 0, q_y = Number 0, q_z = Number 0\<rparr> =
     Infinite False"
proof -
  have "round_double (2 ^ 600 * 2 ^ 600) = Infinite False"
    by (rule round_double_overflow) simp
  then show ?thesis by (simp add: norm_Quaternion_finite round_double_def)
qed








subsection \<open>Scene selection\<close>

text \<open>
  Claim C7. Started with an argument whose integer value \<open>atoi(argv[1])\<close> lies in 0..7,
  the program builds the built-in scene of that index; started without an argument, or
  with one whose integer value lies outside 0..7, it builds the small-pile scene.
\<close>

theorem main_scene_selection:
  "(1 < length argv \<and> 0 \<le> atoi (argv ! 1) \<and> atoi (argv ! 1) \<le> 7
      \<longrightarrow> main_scene atoi argv = built_in_scenes ! nat (atoi (argv ! 1)))
   \<and> (length argv \<le> 1 \<longrightarrow> main_scene atoi argv = init_small_pile)
   \<and> (1 < length argv \<and> (atoi (argv ! 1) < 0 \<or> 7 < atoi (argv ! 1))
      \<longrightarrow> main_scene atoi argv = init_small_pile)"
proof (intro conjI impI)
  assume a: "1 < length argv \<and> 0 \<le> atoi (argv ! 1) \<and> atoi (argv ! 1) \<le> 7"
  define i where "i = atoi (argv ! 1)"
  from a have "i \<in> {0, 1, 2, 3, 4, 5, 6, 7}"
    unfolding i_def by auto
  then have "init_system i = built_in_scenes ! nat i"
    by (auto simp: init_system_def built_in_scenes_def)
  with a show "main_scene atoi argv = built_in_scenes ! nat (atoi (argv ! 1))"
    by (simp add: main_scene_def i_def)
next
  assume "length argv \<le> 1"
  then show "main_scene atoi argv = init_small_pile"
    by (simp add: main_scene_def init_system_def)
next
  assume "1 < length argv \<and> (atoi (argv ! 1) < 0 \<or> 7 < atoi (argv ! 1))"
  then show "main_scene atoi argv = init_small_pile"
    by (auto simp: main_scene_def init_system_def)
qed

text \<open>
  The three cases at concrete command lines: \<open>prog 5\<close> builds the stack scene,
  \<open>prog\<close> and \<open>prog 9\<close> build the small pile.
\<close>

theorem main_scene_selection_witness:
  "(1 < length [''prog'', ''5''] \<and> 0 \<le> digit_atoi ([''prog'', ''5''] ! 1)
      \<and> digit_atoi ([''prog'', ''5''] ! 1) \<le> 7)
   \<and> main_scene digit_atoi [''prog'', ''5''] = init_stack
   \<and> length [''prog''] \<le> 1
   \<and> main_scene digit_atoi [''prog''] = init_small_pile
   \<and> (1 < length [''prog'', ''9''] \<and> 7 < digit_atoi ([''prog'', ''9''] ! 1))
   \<and> main_scene digit_atoi [''prog'', ''9''] = init_small_pile"
proof -
  have h1: "1 < length [''prog'', ''5''] \<and> 0 \<le> digit_atoi ([''prog'', ''5''] ! 1)
      \<and> digit_atoi ([''prog'', ''5''] ! 1) \<le> 7"
    by (simp add: digit_atoi_def)
  have h2: "length [''prog''] \<le> 1"
    by simp
  have h3: "1 < length [''prog'', ''9'']
      \<and> (digit_atoi ([''prog'', ''9''] ! 1) < 0 \<or> 7 < digit_atoi ([''prog'', ''9''] ! 1))"
    by (simp add: digit_atoi_def)
  have v: "built_in_scenes ! nat (digit_atoi ([''prog'', ''5''] ! 1)) = init_stack"
    by (simp add: digit_atoi_def built_in_scenes_def)
  from main_scene_selection [of "[''prog'', ''5'']" digit_atoi] h1 v
  have c1: "main_scene digit_atoi [''prog'', ''5''] = init_stack"
    by simp
  from main_scene_selection [of "[''prog'']" digit_atoi] h2
  have c2: "main_scene digit_atoi [''prog''] = init_small_pile"
    by blast
  from main_scene_selection [of "[''prog'', ''9'']" digit_atoi] h3
  have c3: "main_scene digit_atoi [''prog'', ''9''] = init_small_pile"
    by blast
  from h1 h3 c1 c2 c3 show ?thesis
    by (simp add: digit_atoi_def)
qed

subsection \<open>Fields after a logged call\<close>


lemma log_call_fields [simp]:
  "heap (log_call e s) = heap s"
  "sys_bVector (log_call e s) = sys_bVector s"
  "bVector (log_call e s) = bVector s"
  "prev_pos (log_call e s) = prev_pos s"
  "prev_vel (log_call e s) = prev_vel s"
  "rand_calls (log_call e s) = rand_calls s"
  "trace (log_call e s) = trace s @ [e]"
  "num_bodies (log_call e s) = num_bodies s"
  by (simp_all add: log_call_def num_bodies_def)

subsection \<open>The shuffle\<close>

lemma swap_attempt_Some:
  assumes "swap_attempt E s = Some s'"
  shows "heap s' = heap s" "bVector s' = bVector s" "prev_pos s' = prev_pos s" "prev_vel s' = prev_vel s"
    "rand_calls s' = rand_calls s + 2"
    "trace s' = trace s @ [Call_rand, Call_rand]"
    "num_bodies s \<noteq> 0"
    "sys_bVector s' =
       (if 0 < inv_mass (heap s (sys_bVector s ! attempt_jj E s))
           \<and> 0 < inv_mass (heap s (sys_bVector s ! attempt_kk E s))
        then (sys_bVector s)[attempt_jj E s := sys_bVector s ! attempt_kk E s,
                             attempt_kk E s := sys_bVector s ! attempt_jj E s]
        else sys_bVector s)"
  using assms
  by (auto simp: swap_attempt_def Let_def attempt_jj_def attempt_kk_def split: if_splits)

lemma swap_attempt_total: "num_bodies s \<noteq> 0 \<Longrightarrow> \<exists>s'. swap_attempt E s = Some s'"
  by (simp add: swap_attempt_def Let_def)

lemma swap_attempt_mset:
  assumes "swap_attempt E s = Some s'"
  shows "mset (sys_bVector s') = mset (sys_bVector s)"
proof -
  have n: "num_bodies s \<noteq> 0" using assms by (rule swap_attempt_Some)
  then have "attempt_jj E s < length (sys_bVector s)" "attempt_kk E s < length (sys_bVector s)"
    by (simp_all add: attempt_jj_def attempt_kk_def num_bodies_def)
  then show ?thesis
    by (simp add: swap_attempt_Some(8)[OF assms] mset_swap)
qed


lemma swap_attempt_fixed:
  assumes "swap_attempt E s = Some s'" and "i < length (sys_bVector s)"
    and "inv_mass (heap s (sys_bVector s ! i)) = 0"
  shows "sys_bVector s' ! i = sys_bVector s ! i"
proof -
  have "i \<noteq> attempt_jj E s" if "0 < inv_mass (heap s (sys_bVector s ! attempt_jj E s))"
    using that assms(3) by auto
  moreover have "i \<noteq> attempt_kk E s" if "0 < inv_mass (heap s (sys_bVector s ! attempt_kk E s))"
    using that assms(3) by auto
  ultimately show ?thesis
    by (auto simp: swap_attempt_Some(8)[OF assms(1)])
qed

lemma swap_attempt_length:
  "swap_attempt E s = Some s' \<Longrightarrow> length (sys_bVector s') = length (sys_bVector s)"
  by (simp add: swap_attempt_Some(8))

lemma shuffle_loop_inv:
  "shuffle_loop E ii s = Some s' \<Longrightarrow> ii \<le> 15 \<Longrightarrow>
     heap s' = heap s \<and> bVector s' = bVector s
     \<and> prev_pos s' = prev_pos s \<and> prev_vel s' = prev_vel s
     \<and> rand_calls s' = rand_calls s + 2 * (15 - ii)
     \<and> trace s' = trace s @ replicate (2 * (15 - ii)) Call_rand
     \<and> length (sys_bVector s') = length (sys_bVector s)
     \<and> mset (sys_bVector s') = mset (sys_bVector s)
     \<and> (\<forall>i < length (sys_bVector s). inv_mass (heap s (sys_bVector s ! i)) = 0
           \<longrightarrow> sys_bVector s' ! i = sys_bVector s ! i)"
proof (induction E ii s rule: shuffle_loop.induct)
  case (1 E ii s)
  show ?case
  proof (cases "ii < 15")
    case False
    with "1.prems" show ?thesis by simp
  next
    case True
    with "1.prems" obtain t where t: "swap_attempt E s = Some t"
      and loop: "shuffle_loop E (Suc ii) t = Some s'"
      by (auto split: option.splits)
    from True have le: "Suc ii \<le> 15" by simp
    note ih = "1.IH" [OF True t loop le]
    have rep: "replicate (2 * (15 - ii)) Call_rand
        = [Call_rand, Call_rand] @ replicate (2 * (15 - Suc ii)) Call_rand"
    proof -
      from True have "2 * (15 - ii) = Suc (Suc (2 * (15 - Suc ii)))" by simp
      then show ?thesis by simp
    qed
    have fixed: "sys_bVector s' ! i = sys_bVector s ! i"
      if "i < length (sys_bVector s)" "inv_mass (heap s (sys_bVector s ! i)) = 0" for i
    proof -
      have a: "sys_bVector t ! i = sys_bVector s ! i"
        using swap_attempt_fixed [OF t that] .
      have "i < length (sys_bVector t)"
        using that(1) swap_attempt_length [OF t] by simp
      moreover have "inv_mass (heap t (sys_bVector t ! i)) = 0"
        using that(2) a swap_attempt_Some(1) [OF t] by simp
      ultimately have "sys_bVector s' ! i = sys_bVector t ! i"
        using ih by blast
      with a show ?thesis by simp
    qed
    from True have cnt: "2 * (15 - ii) = 2 + 2 * (15 - Suc ii)" by simp
    show ?thesis
      using ih swap_attempt_Some [OF t] swap_attempt_mset [OF t] swap_attempt_length [OF t]
        fixed rep cnt
      by simp
  qed
qed

lemma then_attempt_simps:
  "then_attempt E None = None"
  "then_attempt E (Some s) = swap_attempt E s"
  by (simp_all add: then_attempt_def)

lemma then_attempt_None: "(then_attempt E ^^ n) None = None"
  by (induction n) (simp_all add: then_attempt_simps)

lemma shuffle_loop_funpow:
  "ii \<le> 15 \<Longrightarrow> shuffle_loop E ii s = (then_attempt E ^^ (15 - ii)) (Some s)"
proof (induction E ii s rule: shuffle_loop.induct)
  case (1 E ii s)
  show ?case
  proof (cases "ii < 15")
    case False
    with "1.prems" show ?thesis by simp
  next
    case True
    then have d: "15 - ii = Suc (15 - Suc ii)" by simp
    show ?thesis
    proof (cases "swap_attempt E s")
      case None
      with True show ?thesis
        by (simp add: d funpow_swap1 then_attempt_simps then_attempt_None del: shuffle_loop.simps
            add: shuffle_loop.simps [of E ii s])
    next
      case (Some t)
      from True have le: "Suc ii \<le> 15" by simp
      from "1.IH" [OF True Some le] True Some show ?thesis
        by (simp add: d funpow_swap1 then_attempt_simps del: shuffle_loop.simps
            add: shuffle_loop.simps [of E ii s])
    qed
  qed
qed

lemma shuffle_loop_total:
  "num_bodies s \<noteq> 0 \<Longrightarrow> \<exists>s'. shuffle_loop E ii s = Some s'"
proof (induction E ii s rule: shuffle_loop.induct)
  case (1 E ii s)
  show ?case
  proof (cases "ii < 15")
    case False
    then show ?thesis by simp
  next
    case True
    from swap_attempt_total [OF "1.prems"] obtain t where t: "swap_attempt E s = Some t" by blast
    have "num_bodies t \<noteq> 0"
      using swap_attempt_length [OF t] "1.prems" by (simp add: num_bodies_def)
    from "1.IH" [OF True t this] True t show ?thesis
      by (simp del: shuffle_loop.simps add: shuffle_loop.simps [of E ii s])
  qed
qed

text \<open>
  Claim C5. The shuffle of a tick is exactly 15 swap attempts, one after the other (30
  calls of \<open>rand()\<close>). An attempt changes the body array only when both bodies it drew
  have \<open>inv_mass > 0\<close>. So when the shuffle ends, the body array is a permutation of
  the array before it, and a body with \<open>inv_mass = 0\<close> is at the index it had. The
  shuffle ends whenever the system has a body.
\<close>

theorem shuffle_fifteen_attempts_permutation:
  "shuffle E s = (then_attempt E ^^ 15) (Some s)
   \<and> (\<forall>t t'. swap_attempt E t = Some t' \<and> sys_bVector t' \<noteq> sys_bVector t
         \<longrightarrow> 0 < inv_mass (heap t (sys_bVector t ! attempt_jj E t))
           \<and> 0 < inv_mass (heap t (sys_bVector t ! attempt_kk E t)))
   \<and> (\<forall>s'. shuffle E s = Some s'
         \<longrightarrow> rand_calls s' = rand_calls s + 30
           \<and> heap s' = heap s
           \<and> mset (sys_bVector s') = mset (sys_bVector s)
           \<and> (\<forall>i < length (sys_bVector s).
                 inv_mass (heap s (sys_bVector s ! i)) = 0
                 \<longrightarrow> sys_bVector s' ! i = sys_bVector s ! i))
   \<and> (num_bodies s \<noteq> 0 \<longrightarrow> shuffle E s \<noteq> None)"
proof (intro conjI allI impI)
  show "shuffle E s = (then_attempt E ^^ 15) (Some s)"
    using shuffle_loop_funpow [of 0 E s] by (simp add: shuffle_def)
next
  fix t t'
  assume a: "swap_attempt E t = Some t' \<and> sys_bVector t' \<noteq> sys_bVector t"
  then have "sys_bVector t' \<noteq> sys_bVector t" by simp
  with swap_attempt_Some(8) [of E t t'] a
  have b: "0 < inv_mass (heap t (sys_bVector t ! attempt_jj E t))
      \<and> 0 < inv_mass (heap t (sys_bVector t ! attempt_kk E t))"
    by (auto split: if_splits)
  from b show "0 < inv_mass (heap t (sys_bVector t ! attempt_jj E t))" by simp
  from b show "0 < inv_mass (heap t (sys_bVector t ! attempt_kk E t))" by simp
next
  fix s'
  assume "shuffle E s = Some s'"
  then have l: "shuffle_loop E 0 s = Some s'" by (simp add: shuffle_def)
  note inv = shuffle_loop_inv [OF l]
  from inv show "rand_calls s' = rand_calls s + 30" by simp
  from inv show "heap s' = heap s" by simp
  from inv show "mset (sys_bVector s') = mset (sys_bVector s)" by simp
  fix i
  assume "i < length (sys_bVector s)" "inv_mass (heap s (sys_bVector s ! i)) = 0"
  with inv show "sys_bVector s' ! i = sys_bVector s ! i" by simp
next
  assume "num_bodies s \<noteq> 0"
  from shuffle_loop_total [OF this, of E 0] show "shuffle E s \<noteq> None"
    by (auto simp: shuffle_def)
qed

text \<open>
  On the small system the first attempt draws the two boxes and exchanges them; the
  floor stays at index 0 and the array \<open>[0, 2, 1]\<close> is a permutation of \<open>[0, 1, 2]\<close>.
\<close>

theorem shuffle_fifteen_attempts_permutation_witness:
  "num_bodies toy_world \<noteq> 0
   \<and> map_option sys_bVector (shuffle toy_env toy_world) = Some [0, 2, 1]
   \<and> map_option rand_calls (shuffle toy_env toy_world) = Some 30
   \<and> map_option sys_bVector (swap_attempt toy_env toy_world) = Some [0, 2, 1]
   \<and> 0 < inv_mass (heap toy_world (sys_bVector toy_world ! attempt_jj toy_env toy_world))
   \<and> 0 < inv_mass (heap toy_world (sys_bVector toy_world ! attempt_kk toy_env toy_world))
   \<and> 0 < length (sys_bVector toy_world)
   \<and> inv_mass (heap toy_world (sys_bVector toy_world ! 0)) = 0
   \<and> mset [0, 2, 1] = mset (sys_bVector toy_world)"
proof -
  note inst = shuffle_fifteen_attempts_permutation [of toy_env toy_world]
  have n: "num_bodies toy_world \<noteq> 0"
    by (simp add: num_bodies_def toy_world_def)
  with inst obtain s' where s': "shuffle toy_env toy_world = Some s'"
    by blast
  have v: "map_option sys_bVector (shuffle toy_env toy_world) = Some [0, 2, 1]"
    by code_simp
  have f: "0 < length (sys_bVector toy_world)"
      "inv_mass (heap toy_world (sys_bVector toy_world ! 0)) = 0"
    by (simp_all add: toy_world_def toy_body_def)
  from inst s' have r: "rand_calls s' = rand_calls toy_world + 30"
    and m: "mset (sys_bVector s') = mset (sys_bVector toy_world)"
    by blast+
  from inst s' f have z: "sys_bVector s' ! 0 = sys_bVector toy_world ! 0"
    by blast
  have a: "map_option sys_bVector (swap_attempt toy_env toy_world) = Some [0, 2, 1]"
    by code_simp
  then obtain t' where t': "swap_attempt toy_env toy_world = Some t'"
      and ne: "sys_bVector t' \<noteq> sys_bVector toy_world"
    by (auto simp: toy_world_def)
  with inst have j: "0 < inv_mass (heap toy_world (sys_bVector toy_world ! attempt_jj toy_env toy_world))
      \<and> 0 < inv_mass (heap toy_world (sys_bVector toy_world ! attempt_kk toy_env toy_world))"
    by blast
  from s' v m have p: "mset [0, 2, 1] = mset (sys_bVector toy_world)"
    by simp
  from s' r have c: "map_option rand_calls (shuffle toy_env toy_world) = Some 30"
    by (simp add: toy_world_def)
  from n v c a j f p show ?thesis
    by blast
qed

subsection \<open>Fields after the primitive calls\<close>

lemma get_state_pos_fields [simp]:
  "heap (get_state_pos i s) = heap s"
  "sys_bVector (get_state_pos i s) = sys_bVector s"
  "bVector (get_state_pos i s) = bVector s"
  "prev_pos (get_state_pos i s) = (prev_pos s)[i := pos_state (heap s (sys_bVector s ! i))]"
  "prev_vel (get_state_pos i s) = prev_vel s"
  "rand_calls (get_state_pos i s) = rand_calls s"
  "trace (get_state_pos i s) = trace s @ [Call_get_state_pos i]"
  "num_bodies (get_state_pos i s) = num_bodies s"
  by (simp_all add: get_state_pos_def num_bodies_def)

lemma get_state_vel_fields [simp]:
  "heap (get_state_vel i s) = heap s"
  "sys_bVector (get_state_vel i s) = sys_bVector s"
  "bVector (get_state_vel i s) = bVector s"
  "prev_pos (get_state_vel i s) = prev_pos s"
  "prev_vel (get_state_vel i s) = (prev_vel s)[i := vel_state (heap s (sys_bVector s ! i))]"
  "rand_calls (get_state_vel i s) = rand_calls s"
  "trace (get_state_vel i s) = trace s @ [Call_get_state_vel i]"
  "num_bodies (get_state_vel i s) = num_bodies s"
  by (simp_all add: get_state_vel_def num_bodies_def)

lemma set_state_pos_fields [simp]:
  "heap (set_state_pos i s) = (heap s)(sys_bVector s ! i :=
       (heap s (sys_bVector s ! i))\<lparr>pos_state := prev_pos s ! i\<rparr>)"
  "sys_bVector (set_state_pos i s) = sys_bVector s"
  "bVector (set_state_pos i s) = bVector s"
  "prev_pos (set_state_pos i s) = prev_pos s"
  "prev_vel (set_state_pos i s) = prev_vel s"
  "rand_calls (set_state_pos i s) = rand_calls s"
  "trace (set_state_pos i s) = trace s @ [Call_set_state_pos i]"
  "num_bodies (set_state_pos i s) = num_bodies s"
  by (simp_all add: set_state_pos_def num_bodies_def)

lemma set_state_vel_fields [simp]:
  "heap (set_state_vel i s) = (heap s)(sys_bVector s ! i :=
       (heap s (sys_bVector s ! i))\<lparr>vel_state := prev_vel s ! i\<rparr>)"
  "sys_bVector (set_state_vel i s) = sys_bVector s"
  "bVector (set_state_vel i s) = bVector s"
  "prev_pos (set_state_vel i s) = prev_pos s"
  "prev_vel (set_state_vel i s) = prev_vel s"
  "rand_calls (set_state_vel i s) = rand_calls s"
  "trace (set_state_vel i s) = trace s @ [Call_set_state_vel i]"
  "num_bodies (set_state_vel i s) = num_bodies s"
  by (simp_all add: set_state_vel_def num_bodies_def)

lemma integrate_vel_fields [simp]:
  "heap (integrate_vel E i s) =
     (if inv_mass (heap s (sys_bVector s ! i)) = 0 then heap s
      else (heap s)(sys_bVector s ! i :=
        (heap s (sys_bVector s ! i))\<lparr>vel_state := euler_vel E (heap s (sys_bVector s ! i))\<rparr>))"
  "sys_bVector (integrate_vel E i s) = sys_bVector s"
  "bVector (integrate_vel E i s) = bVector s"
  "prev_pos (integrate_vel E i s) = prev_pos s"
  "prev_vel (integrate_vel E i s) = prev_vel s"
  "rand_calls (integrate_vel E i s) = rand_calls s"
  "trace (integrate_vel E i s) = trace s @ [Call_integrate_vel i]"
  "num_bodies (integrate_vel E i s) = num_bodies s"
  by (simp_all add: integrate_vel_def num_bodies_def Let_def)

lemma integrate_pos_fields [simp]:
  "heap (integrate_pos E i s) =
     (if inv_mass (heap s (sys_bVector s ! i)) = 0 then heap s
      else (heap s)(sys_bVector s ! i :=
        (heap s (sys_bVector s ! i))\<lparr>pos_state := euler_pos E (heap s (sys_bVector s ! i))\<rparr>))"
  "sys_bVector (integrate_pos E i s) = sys_bVector s"
  "bVector (integrate_pos E i s) = bVector s"
  "prev_pos (integrate_pos E i s) = prev_pos s"
  "prev_vel (integrate_pos E i s) = prev_vel s"
  "rand_calls (integrate_pos E i s) = rand_calls s"
  "trace (integrate_pos E i s) = trace s @ [Call_integrate_pos i]"
  "num_bodies (integrate_pos E i s) = num_bodies s"
  by (simp_all add: integrate_pos_def num_bodies_def Let_def)

lemma zero_forces_fields [simp]:
  "sys_bVector (zero_forces s) = sys_bVector s"
  "bVector (zero_forces s) = bVector s"
  "prev_pos (zero_forces s) = prev_pos s"
  "prev_vel (zero_forces s) = prev_vel s"
  "rand_calls (zero_forces s) = rand_calls s"
  "trace (zero_forces s) = trace s @ [Call_zero_forces]"
  "num_bodies (zero_forces s) = num_bodies s"
  by (simp_all add: zero_forces_def num_bodies_def)

lemma add_gravity_fields [simp]:
  "sys_bVector (add_gravity E s) = sys_bVector s"
  "bVector (add_gravity E s) = bVector s"
  "prev_pos (add_gravity E s) = prev_pos s"
  "prev_vel (add_gravity E s) = prev_vel s"
  "rand_calls (add_gravity E s) = rand_calls s"
  "trace (add_gravity E s) = trace s @ [Call_add_gravity]"
  "num_bodies (add_gravity E s) = num_bodies s"
  by (simp_all add: add_gravity_def num_bodies_def)

lemma topological_tarjan_fields [simp]:
  "heap (topological_tarjan E s) = heap s"
  "sys_bVector (topological_tarjan E s) = tarjan_order E (heap s) (sys_bVector s)"
  "bVector (topological_tarjan E s) = bVector s"
  "prev_pos (topological_tarjan E s) = prev_pos s"
  "prev_vel (topological_tarjan E s) = prev_vel s"
  "rand_calls (topological_tarjan E s) = rand_calls s"
  "trace (topological_tarjan E s) = trace s @ [Call_topological_tarjan]"
  by (simp_all add: topological_tarjan_def)

lemma get_bodies_fields [simp]:
  "heap (get_bodies s) = heap s"
  "sys_bVector (get_bodies s) = sys_bVector s"
  "bVector (get_bodies s) = sys_bVector s"
  "prev_pos (get_bodies s) = prev_pos s"
  "prev_vel (get_bodies s) = prev_vel s"
  "rand_calls (get_bodies s) = rand_calls s"
  "trace (get_bodies s) = trace s @ [Call_get_bodies]"
  "num_bodies (get_bodies s) = num_bodies s"
  by (simp_all add: get_bodies_def num_bodies_def)

lemma clear_contact_list_fields [simp]:
  "heap (clear_contact_list i s) =
     (heap s)(bVector s ! i := (heap s (bVector s ! i))\<lparr>in_contact_list := []\<rparr>)"
  "sys_bVector (clear_contact_list i s) = sys_bVector s"
  "bVector (clear_contact_list i s) = bVector s"
  "prev_pos (clear_contact_list i s) = prev_pos s"
  "prev_vel (clear_contact_list i s) = prev_vel s"
  "rand_calls (clear_contact_list i s) = rand_calls s"
  "trace (clear_contact_list i s) = trace s"
  "num_bodies (clear_contact_list i s) = num_bodies s"
  by (simp_all add: clear_contact_list_def num_bodies_def)

lemma probe_fields [simp]:
  "sys_bVector (probe E i k s) = sys_bVector s"
  "bVector (probe E i k s) = bVector s"
  "prev_pos (probe E i k s) = prev_pos s"
  "prev_vel (probe E i k s) = prev_vel s"
  "rand_calls (probe E i k s) = rand_calls s"
  "trace (probe E i k s) = trace s"
  "num_bodies (probe E i k s) = num_bodies s"
  by (simp_all add: probe_def num_bodies_def split: option.splits)

lemma probe_heap:
  "pos_state (heap (probe E i k s) a) = pos_state (heap s a)"
  "vel_state (heap (probe E i k s) a) = vel_state (heap s a)"
  "forces (heap (probe E i k s) a) = forces (heap s a)"
  "inv_mass (heap (probe E i k s) a) = inv_mass (heap s a)"
  "a \<noteq> bVector s ! i \<Longrightarrow> heap (probe E i k s) a = heap s a"
  by (simp_all add: probe_def split: option.splits)

lemma fold_invariant:
  "P s \<Longrightarrow> (\<And>x t. P t \<Longrightarrow> P (f x t)) \<Longrightarrow> P (fold f xs s)"
  by (induction xs arbitrary: s) simp_all

lemma for_bodies_invariant:
  "P s \<Longrightarrow> (\<And>i t. P t \<Longrightarrow> P (f i t)) \<Longrightarrow> P (for_bodies f s)"
  unfolding for_bodies_def by (rule fold_invariant)



lemma probes_invariant:
  "sys_bVector (for_bodies (probe E i) s) = sys_bVector s
   \<and> bVector (for_bodies (probe E i) s) = bVector s
   \<and> prev_pos (for_bodies (probe E i) s) = prev_pos s
   \<and> prev_vel (for_bodies (probe E i) s) = prev_vel s
   \<and> rand_calls (for_bodies (probe E i) s) = rand_calls s
   \<and> trace (for_bodies (probe E i) s) = trace s
   \<and> (\<forall>a. pos_state (heap (for_bodies (probe E i) s) a) = pos_state (heap s a)
          \<and> vel_state (heap (for_bodies (probe E i) s) a) = vel_state (heap s a)
          \<and> forces (heap (for_bodies (probe E i) s) a) = forces (heap s a)
          \<and> inv_mass (heap (for_bodies (probe E i) s) a) = inv_mass (heap s a)
          \<and> (a \<noteq> bVector s ! i \<longrightarrow> heap (for_bodies (probe E i) s) a = heap s a))"
  by (rule for_bodies_invariant) (simp_all add: probe_heap)

lemma probes_fields [simp]:
  "sys_bVector (for_bodies (probe E i) s) = sys_bVector s"
  "bVector (for_bodies (probe E i) s) = bVector s"
  "prev_pos (for_bodies (probe E i) s) = prev_pos s"
  "prev_vel (for_bodies (probe E i) s) = prev_vel s"
  "rand_calls (for_bodies (probe E i) s) = rand_calls s"
  "trace (for_bodies (probe E i) s) = trace s"
  "pos_state (heap (for_bodies (probe E i) s) a) = pos_state (heap s a)"
  "vel_state (heap (for_bodies (probe E i) s) a) = vel_state (heap s a)"
  "forces (heap (for_bodies (probe E i) s) a) = forces (heap s a)"
  "inv_mass (heap (for_bodies (probe E i) s) a) = inv_mass (heap s a)"
  using probes_invariant [of E i s] by simp_all

lemma probes_other:
  "a \<noteq> bVector s ! i \<Longrightarrow> heap (for_bodies (probe E i) s) a = heap s a"
  using probes_invariant [of E i s] by simp

lemma probe_body_fields [simp]:
  "sys_bVector (probe_body E b i s) = sys_bVector s"
  "bVector (probe_body E b i s) = bVector s"
  "rand_calls (probe_body E b i s) = rand_calls s"
  "forces (heap (probe_body E b i s) a) = forces (heap s a)"
  "inv_mass (heap (probe_body E b i s) a) = inv_mass (heap s a)"
  by (simp_all add: probe_body_def Let_def)

lemma probe_body_buffers:
  "prev_pos (probe_body E b i s) =
     (if inv_mass (heap s (bVector s ! i)) \<noteq> 0
      then (prev_pos s)[i := pos_state (heap s (sys_bVector s ! i))] else prev_pos s)"
  "prev_vel (probe_body E b i s) =
     (if inv_mass (heap s (bVector s ! i)) \<noteq> 0
      then (prev_vel s)[i := vel_state (heap s (sys_bVector s ! i))] else prev_vel s)"
  by (simp_all add: probe_body_def Let_def)

lemma probe_body_motion:
  assumes "i < length (prev_pos s)" and "i < length (prev_vel s)"
  shows "pos_state (heap (probe_body E b i s) a) = pos_state (heap s a)"
    and "vel_state (heap (probe_body E b i s) a) = vel_state (heap s a)"
  using assms by (simp_all add: probe_body_def Let_def)

lemma probe_body_contacts:
  assumes "a \<noteq> bVector s ! i \<or> inv_mass (heap s (bVector s ! i)) = 0"
  shows "in_contact_list (heap (probe_body E b i s) a) = in_contact_list (heap s a)"
  using assms by (auto simp: probe_body_def Let_def probes_other)

lemma fold_upt_Suc: "fold f [0..<Suc m] s = f m (fold f [0..<m] s)"
  by simp

lemma clear_loop_invariant:
  "sys_bVector (fold clear_contact_list xs s) = sys_bVector s
   \<and> bVector (fold clear_contact_list xs s) = bVector s
   \<and> prev_pos (fold clear_contact_list xs s) = prev_pos s
   \<and> prev_vel (fold clear_contact_list xs s) = prev_vel s
   \<and> rand_calls (fold clear_contact_list xs s) = rand_calls s
   \<and> trace (fold clear_contact_list xs s) = trace s
   \<and> (\<forall>a. pos_state (heap (fold clear_contact_list xs s) a) = pos_state (heap s a)
          \<and> vel_state (heap (fold clear_contact_list xs s) a) = vel_state (heap s a)
          \<and> forces (heap (fold clear_contact_list xs s) a) = forces (heap s a)
          \<and> inv_mass (heap (fold clear_contact_list xs s) a) = inv_mass (heap s a))"
  by (rule fold_invariant) simp_all

lemma clear_loop_fields [simp]:
  "sys_bVector (fold clear_contact_list xs s) = sys_bVector s"
  "bVector (fold clear_contact_list xs s) = bVector s"
  "prev_pos (fold clear_contact_list xs s) = prev_pos s"
  "prev_vel (fold clear_contact_list xs s) = prev_vel s"
  "rand_calls (fold clear_contact_list xs s) = rand_calls s"
  "trace (fold clear_contact_list xs s) = trace s"
  "pos_state (heap (fold clear_contact_list xs s) a) = pos_state (heap s a)"
  "vel_state (heap (fold clear_contact_list xs s) a) = vel_state (heap s a)"
  "forces (heap (fold clear_contact_list xs s) a) = forces (heap s a)"
  "inv_mass (heap (fold clear_contact_list xs s) a) = inv_mass (heap s a)"
  "num_bodies (fold clear_contact_list xs s) = num_bodies s"
  using clear_loop_invariant [of xs s] by (simp_all add: num_bodies_def)

lemma clear_loop_empties:
  "i < m \<Longrightarrow> in_contact_list (heap (fold clear_contact_list [0..<m] s) (bVector s ! i)) = []"
proof (induction m)
  case 0
  then show ?case by simp
next
  case (Suc m)
  show ?case
  proof (cases "i = m")
    case True
    then show ?thesis by (simp only: fold_upt_Suc) simp
  next
    case False
    with Suc.prems have "i < m" by simp
    from Suc.IH [OF this] show ?thesis by (simp only: fold_upt_Suc) simp
  qed
qed

lemma clear_all_empties:
  assumes "length (bVector s) = num_bodies s" and "a \<in> set (bVector s)"
  shows "in_contact_list (heap (for_bodies clear_contact_list s) a) = []"
proof -
  from assms(2) obtain i where "i < length (bVector s)" "bVector s ! i = a"
    by (auto simp: in_set_conv_nth)
  with assms(1) clear_loop_empties [of i "num_bodies s" s] show ?thesis
    by (simp add: for_bodies_def)
qed

lemma probe_loop_invariant:
  "sys_bVector (fold (probe_body E b) xs s) = sys_bVector s
   \<and> bVector (fold (probe_body E b) xs s) = bVector s
   \<and> rand_calls (fold (probe_body E b) xs s) = rand_calls s
   \<and> (\<forall>a. forces (heap (fold (probe_body E b) xs s) a) = forces (heap s a)
          \<and> inv_mass (heap (fold (probe_body E b) xs s) a) = inv_mass (heap s a)
          \<and> (inv_mass (heap s a) = 0 \<longrightarrow>
               in_contact_list (heap (fold (probe_body E b) xs s) a)
                 = in_contact_list (heap s a)))"
proof (rule fold_invariant)
  fix x and t :: world
  assume inv: "sys_bVector t = sys_bVector s
   \<and> bVector t = bVector s
   \<and> rand_calls t = rand_calls s
   \<and> (\<forall>a. forces (heap t a) = forces (heap s a)
          \<and> inv_mass (heap t a) = inv_mass (heap s a)
          \<and> (inv_mass (heap s a) = 0 \<longrightarrow> in_contact_list (heap t a) = in_contact_list (heap s a)))"
  have "in_contact_list (heap (probe_body E b x t) a) = in_contact_list (heap s a)"
    if "inv_mass (heap s a) = 0" for a
  proof -
    from that inv have "inv_mass (heap t a) = 0" by simp
    then have "a \<noteq> bVector t ! x \<or> inv_mass (heap t (bVector t ! x)) = 0" by auto
    from probe_body_contacts [OF this] that inv show ?thesis by simp
  qed
  with inv show "sys_bVector (probe_body E b x t) = sys_bVector s
   \<and> bVector (probe_body E b x t) = bVector s
   \<and> rand_calls (probe_body E b x t) = rand_calls s
   \<and> (\<forall>a. forces (heap (probe_body E b x t) a) = forces (heap s a)
          \<and> inv_mass (heap (probe_body E b x t) a) = inv_mass (heap s a)
          \<and> (inv_mass (heap s a) = 0 \<longrightarrow>
               in_contact_list (heap (probe_body E b x t) a) = in_contact_list (heap s a)))"
    by simp
qed simp



subsection \<open>create_contact_graph\<close>

lemma create_contact_graph_unfold:
  "create_contact_graph E b s =
     get_bodies (topological_tarjan E (for_bodies (probe_body E b)
       (for_bodies clear_contact_list (log_call (Call_create_contact_graph b) s))))"
  by (simp add: create_contact_graph_def Let_def)

lemma create_contact_graph_inv_mass:
  "inv_mass (heap (create_contact_graph E b s) a) = inv_mass (heap s a)"
  using probe_loop_invariant [of E b "[0..<num_bodies s]"
      "for_bodies clear_contact_list (log_call (Call_create_contact_graph b) s)"]
  by (simp add: create_contact_graph_unfold for_bodies_def)

text \<open>
  Claim C6. After a call of \<open>create_contact_graph\<close>, every body with \<open>inv_mass = 0\<close>
  has an empty \<open>in_contact_list\<close>: the first loop empties the list of every body of
  \<open>bVector\<close>, the second loop appends only to bodies with \<open>inv_mass \<noteq> 0\<close>, and the
  call changes no \<open>inv_mass\<close>. (\<open>bVector\<close> has one entry per body of the system.)
\<close>

theorem fixed_bodies_have_no_contacts:
  assumes "length (bVector s) = num_bodies s"
  shows "(\<forall>a \<in> set (bVector s).
           in_contact_list (heap (for_bodies clear_contact_list
              (log_call (Call_create_contact_graph b) s)) a) = [])
     \<and> (\<forall>a. inv_mass (heap (create_contact_graph E b s) a) = inv_mass (heap s a))
     \<and> (\<forall>a \<in> set (bVector s). inv_mass (heap s a) = 0
           \<longrightarrow> in_contact_list (heap (create_contact_graph E b s) a) = [])"
proof (intro conjI ballI allI impI)
  let ?s0 = "log_call (Call_create_contact_graph b) s"
  let ?s1 = "for_bodies clear_contact_list ?s0"
  have len: "length (bVector ?s0) = num_bodies ?s0"
    using assms by simp
  show cleared: "in_contact_list (heap ?s1 a) = []" if "a \<in> set (bVector s)" for a
    using clear_all_empties [OF len, of a] that by simp
  show "inv_mass (heap (create_contact_graph E b s) a) = inv_mass (heap s a)" for a
    by (rule create_contact_graph_inv_mass)
  show "in_contact_list (heap (create_contact_graph E b s) a) = []"
    if "a \<in> set (bVector s)" and "inv_mass (heap s a) = 0" for a
  proof -
    have "inv_mass (heap ?s1 a) = 0"
      using that(2) by (simp add: for_bodies_def)
    with probe_loop_invariant [of E b "[0..<num_bodies ?s1]" ?s1]
    have "in_contact_list (heap (for_bodies (probe_body E b) ?s1) a) = in_contact_list (heap ?s1 a)"
      by (simp add: for_bodies_def)
    with cleared [OF that(1)] show ?thesis
      by (simp add: create_contact_graph_unfold)
  qed
qed

text \<open>
  On the small system: the floor ends with no contact, the box at address 1 with one.
\<close>

theorem fixed_bodies_have_no_contacts_witness:
  "length (bVector stale_world) = num_bodies stale_world
   \<and> 0 \<in> set (bVector stale_world)
   \<and> inv_mass (heap stale_world 0) = 0
   \<and> in_contact_list (heap (for_bodies clear_contact_list
          (log_call (Call_create_contact_graph True) stale_world)) 0) = []
   \<and> in_contact_list (heap (create_contact_graph toy_env True stale_world) 0) = []
   \<and> map c_b (in_contact_list (heap (create_contact_graph toy_env True stale_world) 1)) = [0]"
proof -
  have h: "length (bVector stale_world) = num_bodies stale_world"
    by (simp add: stale_world_def toy_world_def num_bodies_def)
  have m: "0 \<in> set (bVector stale_world)" "inv_mass (heap stale_world 0) = 0"
    by (simp_all add: stale_world_def toy_world_def toy_body_def)
  note inst = fixed_bodies_have_no_contacts [OF h, of True toy_env]
  from inst m have c: "in_contact_list (heap (for_bodies clear_contact_list
          (log_call (Call_create_contact_graph True) stale_world)) 0) = []"
    by blast
  from inst m have e: "in_contact_list (heap (create_contact_graph toy_env True stale_world) 0) = []"
    by blast
  have t: "map c_b (in_contact_list (heap (create_contact_graph toy_env True stale_world) 1)) = [0]"
    by code_simp
  from h m c e t show ?thesis
    by blast
qed



lemma probe_heap_cong:
  "heap t = heap u \<Longrightarrow> bVector t = bVector u \<Longrightarrow> heap (probe E i k t) = heap (probe E i k u)"
  by (simp add: probe_def split: option.splits)

lemma probes_heap_cong:
  "heap t = heap u \<Longrightarrow> bVector t = bVector u
     \<Longrightarrow> heap (fold (probe E i) xs t) = heap (fold (probe E i) xs u)"
proof (induction xs arbitrary: t u)
  case Nil
  then show ?case by simp
next
  case (Cons k xs)
  have "heap (probe E i k t) = heap (probe E i k u)"
    using Cons.prems by (rule probe_heap_cong)
  moreover have "bVector (probe E i k t) = bVector (probe E i k u)"
    using Cons.prems by simp
  ultimately have "heap (fold (probe E i) xs (probe E i k t)) = heap (fold (probe E i) xs (probe E i k u))"
    by (rule Cons.IH)
  then show ?case
    by simp
qed

lemma probe_body_contacts_from_advanced:
  assumes "inv_mass (heap s (bVector s ! i)) \<noteq> 0"
  shows "in_contact_list (heap (probe_body E b i s) a)
       = in_contact_list (heap (for_bodies (probe E i) (advanced E b i s)) a)"
proof -
  let ?s2 = "get_state_vel i (get_state_pos i s)"
  let ?s4 = "integrate_pos E i (if b then integrate_vel E i ?s2 else ?s2)"
  have h: "heap ?s4 = heap (advanced E b i s)"
    by (simp add: advanced_def)
  have v: "bVector ?s4 = bVector (advanced E b i s)"
    by (simp add: advanced_def)
  have n: "num_bodies ?s4 = num_bodies (advanced E b i s)"
    by (simp add: advanced_def)
  have "heap (for_bodies (probe E i) ?s4) = heap (for_bodies (probe E i) (advanced E b i s))"
    unfolding for_bodies_def n by (rule probes_heap_cong [OF h v])
  then show ?thesis
    using assms by (simp add: probe_body_def Let_def)
qed

lemma create_contact_graph_aligns:
  "bVector (create_contact_graph E b t) = sys_bVector (create_contact_graph E b t)"
  by (simp add: create_contact_graph_def Let_def)

lemma probe_step:
  "probe E i i t = t"
  "k \<noteq> i \<Longrightarrow>
     probe E i k t =
       t\<lparr>heap := (heap t)(bVector t ! i :=
            (heap t (bVector t ! i))\<lparr>in_contact_list :=
               in_contact_list (heap t (bVector t ! i))
                 @ (case box_intersection E (heap t (bVector t ! k)) (heap t (bVector t ! i)) of
                      None \<Rightarrow> []
                    | Some (p, n) \<Rightarrow> [\<lparr>c_b = bVector t ! k, c_p = p, c_normal = n\<rparr>])\<rparr>)\<rparr>"
  by (simp_all add: probe_def split: option.splits)

lemma advanced_body:
  assumes "inv_mass (heap s (sys_bVector s ! i)) \<noteq> 0"
  shows "heap (advanced E is_initial i s) (sys_bVector s ! i) =
     (if is_initial then euler_step E (heap s (sys_bVector s ! i))
      else (heap s (sys_bVector s ! i))\<lparr>pos_state := euler_pos E (heap s (sys_bVector s ! i))\<rparr>)"
  using assms by (simp add: advanced_def euler_step_def)

text \<open>
  Claim C3, amended. The statement is about a call in which the file-static \<open>bVector\<close>
  is the body vector of the system, as it is after every \<open>create_contact_graph\<close> (its
  last statement is \<open>sys->get_bodies(bVector)\<close>); then \<open>bVector[i]\<close>, which is tested
  and probed, and the \<open>i\<close>-th body of the system, which is saved, integrated and
  restored, are one body. For a movable body \<open>i\<close>, one pass of the loop of
  \<open>create_contact_graph\<close> first saves the current state of body \<open>i\<close> into slot \<open>i\<close> of
  \<open>prev_pos\<close> and \<open>prev_vel\<close> (\<open>get_state_pos\<close>, \<open>get_state_vel\<close>), then advances
  body \<open>i\<close> alone by \<open>dt\<close> from that current state (\<open>integrate_vel\<close> only when
  \<open>is_initial\<close>, then \<open>integrate_pos\<close>), probes it in the system so advanced against
  every other index \<open>k\<close>, each hit appending a contact with body \<open>k\<close> to the list of body
  \<open>i\<close>, and at the end writes the saved state back (\<open>set_state_pos\<close>,
  \<open>set_state_vel\<close>). The contacts found are those of the system advanced from the
  current state; the content that the slots had before the call plays no part. The two
  vectors still agree after the pass, so the statement applies to every pass of the loop.
\<close>

theorem probe_body_saves_advances_restores:
  assumes "bVector s = sys_bVector s"
    and "i < length (prev_pos s)" and "i < length (prev_vel s)"
    and "inv_mass (heap s (bVector s ! i)) \<noteq> 0"
  shows "trace (probe_body E is_initial i s) =
           trace s @ [Call_get_state_pos i, Call_get_state_vel i]
             @ (if is_initial then [Call_integrate_vel i] else [])
             @ [Call_integrate_pos i, Call_set_state_pos i, Call_set_state_vel i]
     \<and> prev_pos (probe_body E is_initial i s) ! i = pos_state (heap s (bVector s ! i))
     \<and> prev_vel (probe_body E is_initial i s) ! i = vel_state (heap s (bVector s ! i))
     \<and> heap (advanced E is_initial i s) (bVector s ! i) =
         (if is_initial then euler_step E (heap s (bVector s ! i))
          else (heap s (bVector s ! i))\<lparr>pos_state := euler_pos E (heap s (bVector s ! i))\<rparr>)
     \<and> (\<forall>a. a \<noteq> bVector s ! i \<longrightarrow> heap (advanced E is_initial i s) a = heap s a)
     \<and> bVector (advanced E is_initial i s) = bVector s
     \<and> num_bodies (advanced E is_initial i s) = num_bodies s
     \<and> (\<forall>a. in_contact_list (heap (probe_body E is_initial i s) a)
             = in_contact_list (heap (for_bodies (probe E i) (advanced E is_initial i s)) a))
     \<and> (\<forall>t. probe E i i t = t)
     \<and> (\<forall>t k. k \<noteq> i \<longrightarrow>
           probe E i k t =
             t\<lparr>heap := (heap t)(bVector t ! i :=
                  (heap t (bVector t ! i))\<lparr>in_contact_list :=
                     in_contact_list (heap t (bVector t ! i))
                       @ (case box_intersection E (heap t (bVector t ! k)) (heap t (bVector t ! i)) of
                            None \<Rightarrow> []
                          | Some (p, n) \<Rightarrow> [\<lparr>c_b = bVector t ! k, c_p = p, c_normal = n\<rparr>])\<rparr>)\<rparr>)
     \<and> (\<forall>a. pos_state (heap (probe_body E is_initial i s) a) = pos_state (heap s a)
            \<and> vel_state (heap (probe_body E is_initial i s) a) = vel_state (heap s a))
     \<and> bVector (probe_body E is_initial i s) = sys_bVector (probe_body E is_initial i s)
     \<and> (\<forall>t b. bVector (create_contact_graph E b t) = sys_bVector (create_contact_graph E b t))
     \<and> (\<forall>t b. create_contact_graph E b t =
           get_bodies (topological_tarjan E (for_bodies (probe_body E b)
             (for_bodies clear_contact_list (log_call (Call_create_contact_graph b) t)))))"
proof (intro conjI allI impI)
  show "trace (probe_body E is_initial i s) =
           trace s @ [Call_get_state_pos i, Call_get_state_vel i]
             @ (if is_initial then [Call_integrate_vel i] else [])
             @ [Call_integrate_pos i, Call_set_state_pos i, Call_set_state_vel i]"
    using assms(4) by (simp add: probe_body_def Let_def)
  show "prev_pos (probe_body E is_initial i s) ! i = pos_state (heap s (bVector s ! i))"
    using assms by (simp add: probe_body_buffers)
  show "prev_vel (probe_body E is_initial i s) ! i = vel_state (heap s (bVector s ! i))"
    using assms by (simp add: probe_body_buffers)
  show "heap (advanced E is_initial i s) (bVector s ! i) =
         (if is_initial then euler_step E (heap s (bVector s ! i))
          else (heap s (bVector s ! i))\<lparr>pos_state := euler_pos E (heap s (bVector s ! i))\<rparr>)"
    using assms(4) advanced_body [of s i E is_initial] unfolding assms(1) by simp
  show "heap (advanced E is_initial i s) a = heap s a" if "a \<noteq> bVector s ! i" for a
    using that unfolding assms(1) by (simp add: advanced_def)
  show "bVector (advanced E is_initial i s) = bVector s"
    by (simp add: advanced_def)
  show "num_bodies (advanced E is_initial i s) = num_bodies s"
    by (simp add: advanced_def)
  show "in_contact_list (heap (probe_body E is_initial i s) a)
             = in_contact_list (heap (for_bodies (probe E i) (advanced E is_initial i s)) a)" for a
    using assms(4) by (rule probe_body_contacts_from_advanced)
  show "probe E i i t = t" for t
    by (rule probe_step)
  show "probe E i k t =
             t\<lparr>heap := (heap t)(bVector t ! i :=
                  (heap t (bVector t ! i))\<lparr>in_contact_list :=
                     in_contact_list (heap t (bVector t ! i))
                       @ (case box_intersection E (heap t (bVector t ! k)) (heap t (bVector t ! i)) of
                            None \<Rightarrow> []
                          | Some (p, n) \<Rightarrow> [\<lparr>c_b = bVector t ! k, c_p = p, c_normal = n\<rparr>])\<rparr>)\<rparr>"
    if "k \<noteq> i" for t k
    using that by (rule probe_step)
  show "pos_state (heap (probe_body E is_initial i s) a) = pos_state (heap s a)" for a
    using assms(2,3) by (rule probe_body_motion)
  show "vel_state (heap (probe_body E is_initial i s) a) = vel_state (heap s a)" for a
    using assms(2,3) by (rule probe_body_motion)
  show "bVector (probe_body E is_initial i s) = sys_bVector (probe_body E is_initial i s)"
    using assms(1) by simp
  show "bVector (create_contact_graph E b t) = sys_bVector (create_contact_graph E b t)" for t b
    by (rule create_contact_graph_aligns)
  show "create_contact_graph E b t =
           get_bodies (topological_tarjan E (for_bodies (probe_body E b)
             (for_bodies clear_contact_list (log_call (Call_create_contact_graph b) t))))" for t b
    by (rule create_contact_graph_unfold)
qed

text \<open>
  On the small system with a stale snapshot, where the two vectors agree, for the box at
  index 1: its position 1 is saved into slot 1, the box alone is moved (to position 1,
  its velocity being 0), the floor is left alone, and the box ends at position 1.
\<close>

theorem probe_body_saves_advances_restores_witness:
  "bVector stale_world = sys_bVector stale_world
   \<and> 1 < length (prev_pos stale_world) \<and> 1 < length (prev_vel stale_world)
   \<and> inv_mass (heap stale_world (bVector stale_world ! 1)) \<noteq> 0
   \<and> trace (probe_body toy_env False 1 stale_world) =
        [Call_get_state_pos 1, Call_get_state_vel 1, Call_integrate_pos 1,
         Call_set_state_pos 1, Call_set_state_vel 1]
   \<and> prev_pos (probe_body toy_env False 1 stale_world) ! 1 = [1]
   \<and> 0 \<noteq> bVector stale_world ! 1
   \<and> heap (advanced toy_env False 1 stale_world) 0 = heap stale_world 0
   \<and> pos_state (heap (advanced toy_env True 1 stale_world) 1) = [0]
   \<and> vel_state (heap (advanced toy_env True 1 stale_world) 1) = [- 1]
   \<and> pos_state (heap (probe_body toy_env False 1 stale_world) 1) = [1]"
proof -
  have h: "bVector stale_world = sys_bVector stale_world"
      "1 < length (prev_pos stale_world)" "1 < length (prev_vel stale_world)"
      "inv_mass (heap stale_world (bVector stale_world ! 1)) \<noteq> 0"
    by (simp_all add: stale_world_def toy_world_def toy_body_def)
  note inst = probe_body_saves_advances_restores [OF h, of toy_env False]
  note init = probe_body_saves_advances_restores [OF h, of toy_env True]
  have v: "trace stale_world = []" "pos_state (heap stale_world (bVector stale_world ! 1)) = [1]"
      "0 \<noteq> bVector stale_world ! 1" "pos_state (heap stale_world 1) = [1]"
      "bVector stale_world ! 1 = 1"
    by (simp_all add: stale_world_def toy_world_def toy_body_def)
  from inst v have a: "trace (probe_body toy_env False 1 stale_world) =
        [Call_get_state_pos 1, Call_get_state_vel 1, Call_integrate_pos 1,
         Call_set_state_pos 1, Call_set_state_vel 1]"
    by simp
  from inst v have b: "prev_pos (probe_body toy_env False 1 stale_world) ! 1 = [1]"
    by simp
  from inst v have c: "heap (advanced toy_env False 1 stale_world) 0 = heap stale_world 0"
    by blast
  from inst v have d: "pos_state (heap (probe_body toy_env False 1 stale_world) 1) = [1]"
    by simp
  from init have "heap (advanced toy_env True 1 stale_world) (bVector stale_world ! 1) =
      (if True then euler_step toy_env (heap stale_world (bVector stale_world ! 1))
       else (heap stale_world (bVector stale_world ! 1))\<lparr>pos_state :=
              euler_pos toy_env (heap stale_world (bVector stale_world ! 1))\<rparr>)"
    by blast
  then have e: "pos_state (heap (advanced toy_env True 1 stale_world) 1) = [0]"
      "vel_state (heap (advanced toy_env True 1 stale_world) 1) = [- 1]"
    by (simp_all add: v(5) euler_step_def stale_world_def toy_world_def toy_body_def toy_env_def)
  from h v a b c d e show ?thesis
    by blast
qed

text \<open>
  Claim C3 as stated fails on the small system, where slot 1 holds the snapshot
  (position 9, velocity 9) and the box at index 1 is at position 1 with velocity 0. The
  first call for body 1 is \<open>get_state_pos\<close>, which overwrites the snapshot slot with
  position 1; no \<open>set_state_pos\<close> comes before \<open>integrate_pos\<close>. The box is probed at
  position 1, where it touches the floor and the other box. Had it been put back to the
  snapshot first, it would have been probed at position 18, where the intersection test
  with the floor fails.
\<close>

theorem probe_from_snapshot_counterexample:
  "prev_pos stale_world ! 1 = [9]
   \<and> prev_vel stale_world ! 1 = [9]
   \<and> pos_state (heap stale_world (sys_bVector stale_world ! 1)) = [1]
   \<and> inv_mass (heap stale_world (bVector stale_world ! 1)) \<noteq> 0
   \<and> take 4 (trace (create_contact_graph toy_env False stale_world)) =
        [Call_create_contact_graph False, Call_get_state_pos 1, Call_get_state_vel 1,
         Call_integrate_pos 1]
   \<and> map c_b (in_contact_list (heap (create_contact_graph toy_env False stale_world) 1)) = [0, 2]
   \<and> box_intersection toy_env (heap stale_world 0)
        ((heap stale_world 1)\<lparr>pos_state := euler_pos toy_env
           ((heap stale_world 1)\<lparr>pos_state := prev_pos stale_world ! 1,
                                  vel_state := prev_vel stale_world ! 1\<rparr>)\<rparr>) = None
   \<and> prev_pos (create_contact_graph toy_env False stale_world) ! 1 = [1]"
proof -
  have a: "prev_pos stale_world ! 1 = [9]" "prev_vel stale_world ! 1 = [9]"
      "pos_state (heap stale_world (sys_bVector stale_world ! 1)) = [1]"
      "inv_mass (heap stale_world (bVector stale_world ! 1)) \<noteq> 0"
    by (simp_all add: stale_world_def toy_world_def toy_body_def)
  have b: "take 4 (trace (create_contact_graph toy_env False stale_world)) =
        [Call_create_contact_graph False, Call_get_state_pos 1, Call_get_state_vel 1,
         Call_integrate_pos 1]"
    by code_simp
  have c: "map c_b (in_contact_list (heap (create_contact_graph toy_env False stale_world) 1)) = [0, 2]"
    by code_simp
  have d: "box_intersection toy_env (heap stale_world 0)
        ((heap stale_world 1)\<lparr>pos_state := euler_pos toy_env
           ((heap stale_world 1)\<lparr>pos_state := prev_pos stale_world ! 1,
                                  vel_state := prev_vel stale_world ! 1\<rparr>)\<rparr>) = None"
    by (simp add: stale_world_def toy_world_def toy_body_def toy_env_def)
  have e: "prev_pos (create_contact_graph toy_env False stale_world) ! 1 = [1]"
    by code_simp
  from a b c d e show ?thesis
    by blast
qed

subsection \<open>Reading the log of calls\<close>

lemma extends_iff: "extends s s' = (\<exists>es. trace s' = trace s @ es)"
proof
  assume "extends s s'"
  then have "trace s' = trace s @ drop (length (trace s)) (trace s')"
    unfolding extends_def by (metis append_take_drop_id)
  then show "\<exists>es. trace s' = trace s @ es" ..
next
  assume "\<exists>es. trace s' = trace s @ es"
  then show "extends s s'" by (auto simp: extends_def)
qed

lemma extendsI: "trace s' = trace s @ es \<Longrightarrow> extends s s'"
  by (auto simp: extends_iff)

lemma new_callsI: "trace s' = trace s @ es \<Longrightarrow> new_calls s s' = es"
  by (simp add: new_calls_def)

lemma extends_trace: "extends s s' \<Longrightarrow> trace s' = trace s @ new_calls s s'"
  by (auto simp: extends_iff new_calls_def)

lemma extends_refl [simp]: "extends s s"
  by (simp add: extends_def)

lemma extends_trans: "extends s t \<Longrightarrow> extends t u \<Longrightarrow> extends s u"
  by (auto simp: extends_iff)

lemma new_calls_trans:
  "extends s t \<Longrightarrow> extends t u \<Longrightarrow> new_calls s u = new_calls s t @ new_calls t u"
  by (auto simp: extends_iff new_calls_def)

lemma major_calls_trans:
  "extends s t \<Longrightarrow> extends t u \<Longrightarrow> major_calls s u = major_calls s t @ major_calls t u"
  using new_calls_trans [of s t u] by (simp add: major_calls_def)

lemma quiet_refl [simp]: "quiet s s"
  by (simp add: quiet_def major_calls_def new_calls_def)

lemma quiet_same: "trace s' = trace s \<Longrightarrow> quiet s s'"
  by (simp add: quiet_def major_calls_def new_calls_def extends_def)

lemma quiet_trans: "quiet s t \<Longrightarrow> quiet t u \<Longrightarrow> quiet s u"
  using major_calls_trans [of s t u] extends_trans [of s t u] by (simp add: quiet_def)

lemma quiet_log: "primitive_call e \<Longrightarrow> trace s' = trace s @ [e] \<Longrightarrow> quiet s s'"
  by (simp add: quiet_def major_calls_def new_calls_def extends_def)

lemma quiet_fold: "(\<And>x t. quiet t (f x t)) \<Longrightarrow> quiet s (fold f xs s)"
proof (induction xs arbitrary: s)
  case Nil
  show ?case by simp
next
  case (Cons x xs)
  have "quiet s (f x s)" by (rule Cons.prems)
  moreover have "quiet (f x s) (fold f xs (f x s))"
    by (rule Cons.IH) (rule Cons.prems)
  ultimately show ?case
    using quiet_trans [of s "f x s" "fold f xs (f x s)"] by simp
qed

lemma quiet_for_bodies: "(\<And>x t. quiet t (f x t)) \<Longrightarrow> quiet s (for_bodies f s)"
  unfolding for_bodies_def by (rule quiet_fold)

lemma quiet_primitives:
  "quiet s (get_state_pos i s)"
  "quiet s (get_state_vel i s)"
  "quiet s (set_state_pos i s)"
  "quiet s (set_state_vel i s)"
  "quiet s (integrate_vel E i s)"
  "quiet s (integrate_pos E i s)"
  "quiet s (zero_forces s)"
  "quiet s (add_gravity E s)"
  "quiet s (topological_tarjan E s)"
  "quiet s (get_bodies s)"
  "quiet s (clear_contact_list i s)"
  "quiet s (probe E i k s)"
  "quiet s (declare_buffers E s)"
proof -
  show "quiet s (get_state_pos i s)"
    by (rule quiet_log [where e = "Call_get_state_pos i"]) simp_all
  show "quiet s (get_state_vel i s)"
    by (rule quiet_log [where e = "Call_get_state_vel i"]) simp_all
  show "quiet s (set_state_pos i s)"
    by (rule quiet_log [where e = "Call_set_state_pos i"]) simp_all
  show "quiet s (set_state_vel i s)"
    by (rule quiet_log [where e = "Call_set_state_vel i"]) simp_all
  show "quiet s (integrate_vel E i s)"
    by (rule quiet_log [where e = "Call_integrate_vel i"]) simp_all
  show "quiet s (integrate_pos E i s)"
    by (rule quiet_log [where e = "Call_integrate_pos i"]) simp_all
  show "quiet s (zero_forces s)"
    by (rule quiet_log [where e = "Call_zero_forces"]) simp_all
  show "quiet s (add_gravity E s)"
    by (rule quiet_log [where e = "Call_add_gravity"]) simp_all
  show "quiet s (topological_tarjan E s)"
    by (rule quiet_log [where e = "Call_topological_tarjan"]) simp_all
  show "quiet s (get_bodies s)"
    by (rule quiet_log [where e = "Call_get_bodies"]) simp_all
  show "quiet s (clear_contact_list i s)"
    by (rule quiet_same) simp
  show "quiet s (probe E i k s)"
    by (rule quiet_same) simp
  show "quiet s (declare_buffers E s)"
    by (rule quiet_same) (simp add: declare_buffers_def)
qed

lemma quiet_probe_body: "quiet s (probe_body E b i s)"
proof (cases "inv_mass (heap s (bVector s ! i)) \<noteq> 0")
  case False
  then show ?thesis by (simp add: probe_body_def)
next
  case True
  define s2 where "s2 = get_state_vel i (get_state_pos i s)"
  define s3 where "s3 = (if b then integrate_vel E i s2 else s2)"
  define s5 where "s5 = for_bodies (probe E i) (integrate_pos E i s3)"
  have "quiet s s2"
    unfolding s2_def by (rule quiet_trans [OF quiet_primitives(1) quiet_primitives(2)])
  moreover have "quiet s2 s3"
    unfolding s3_def by (simp add: quiet_primitives)
  moreover have "quiet s3 s5"
    unfolding s5_def
    by (rule quiet_trans [OF quiet_primitives(6)]) (rule quiet_for_bodies, rule quiet_primitives)
  moreover have "quiet s5 (set_state_vel i (set_state_pos i s5))"
    by (rule quiet_trans [OF quiet_primitives(3) quiet_primitives(4)])
  ultimately have "quiet s (set_state_vel i (set_state_pos i s5))"
    using quiet_trans by blast
  with True show ?thesis
    by (cases b) (simp_all add: probe_body_def Let_def s5_def s3_def s2_def)
qed


lemma quiet_phases:
  "quiet s (snapshot s)"
  "quiet s (restore_all s)"
  "quiet s (integrate_all E s)"
  "quiet s (for_bodies (integrate_vel E) s)"
  "quiet s (for_bodies (integrate_pos E) s)"
  "quiet s (for_bodies clear_contact_list s)"
  "quiet s (for_bodies (probe_body E b) s)"
proof -
  show "quiet s (snapshot s)"
    unfolding snapshot_def
    by (rule quiet_for_bodies) (rule quiet_trans [OF quiet_primitives(1) quiet_primitives(2)])
  show "quiet s (restore_all s)"
    unfolding restore_all_def
    by (rule quiet_for_bodies) (rule quiet_trans [OF quiet_primitives(3) quiet_primitives(4)])
  show "quiet s (integrate_all E s)"
    unfolding integrate_all_def
    by (rule quiet_for_bodies) (rule quiet_trans [OF quiet_primitives(5) quiet_primitives(6)])
  show "quiet s (for_bodies (integrate_vel E) s)"
    by (rule quiet_for_bodies) (rule quiet_primitives)
  show "quiet s (for_bodies (integrate_pos E) s)"
    by (rule quiet_for_bodies) (rule quiet_primitives)
  show "quiet s (for_bodies clear_contact_list s)"
    by (rule quiet_for_bodies) (rule quiet_primitives)
  show "quiet s (for_bodies (probe_body E b) s)"
    by (rule quiet_for_bodies) (rule quiet_probe_body)
qed

lemma quiet_collision_pass: "quiet s (collision_pass E s)"
  unfolding collision_pass_def
  by (rule quiet_trans [OF quiet_phases(2)
        quiet_trans [OF quiet_primitives(7) quiet_trans [OF quiet_primitives(8) quiet_phases(3)]]])

lemma quiet_tentative_step: "quiet s (tentative_step E s)"
  unfolding tentative_step_def
  by (rule quiet_trans [OF quiet_primitives(7) quiet_trans [OF quiet_primitives(8) quiet_phases(3)]])

lemma quiet_before_collisions: "quiet s (before_collisions E s)"
  unfolding before_collisions_def
  by (rule quiet_trans [OF quiet_primitives(13) quiet_trans [OF quiet_phases(1) quiet_tentative_step]])

lemma quiet_after_collisions: "quiet s (after_collisions E s)"
  unfolding after_collisions_def
  by (rule quiet_trans [OF quiet_phases(2) quiet_trans [OF quiet_primitives(7) quiet_primitives(8)]])

text \<open>A step that logs one major call and primitive calls.\<close>

lemma major_log:
  "\<not> primitive_call e \<Longrightarrow> trace s' = trace s @ [e] \<Longrightarrow> extends s s' \<and> major_calls s s' = [e]"
  by (simp add: major_calls_def new_calls_def extends_def)

lemma major_then_quiet:
  assumes "extends s t" and "quiet t u"
  shows "extends s u \<and> major_calls s u = major_calls s t"
  using assms major_calls_trans [of s t u] extends_trans [of s t u] by (simp add: quiet_def)

lemma quiet_then_major:
  assumes "quiet s t" and "extends t u"
  shows "extends s u \<and> major_calls s u = major_calls t u"
  using assms major_calls_trans [of s t u] extends_trans [of s t u] by (simp add: quiet_def)

lemma create_contact_graph_calls:
  "extends s (create_contact_graph E b s)
   \<and> major_calls s (create_contact_graph E b s) = [Call_create_contact_graph b]"
proof -
  let ?s0 = "log_call (Call_create_contact_graph b) s"
  have a: "extends s ?s0 \<and> major_calls s ?s0 = [Call_create_contact_graph b]"
    by (rule major_log) simp_all
  have "quiet ?s0 (create_contact_graph E b s)"
    unfolding create_contact_graph_unfold
    by (rule quiet_trans [OF quiet_phases(6) quiet_trans [OF quiet_phases(7)
          quiet_trans [OF quiet_primitives(9) quiet_primitives(10)]]])
  with a major_then_quiet [of s ?s0 "create_contact_graph E b s"] show ?thesis
    by simp
qed

lemma collsion_detect_calls:
  "extends s (snd (collsion_detect E s))
   \<and> major_calls s (snd (collsion_detect E s)) = [Call_collsion_detect (fst (collsion_detect E s))]"
  by (rule major_log) (simp_all add: collsion_detect_def split: prod.splits)

lemma contact_detect_calls:
  "extends s (snd (contact_detect E c sh s))
   \<and> major_calls s (snd (contact_detect E c sh s))
       = [Call_contact_detect c sh (fst (contact_detect E c sh s))]"
  by (rule major_log) (simp_all add: contact_detect_def split: prod.splits)

subsection \<open>The collision loop, the contact loop and shock propagation\<close>

declare collision_loop.simps [simp del]
declare contact_loop.simps [simp del]
declare shock_loop.simps [simp del]

lemma collision_loop_calls:
  "extends s (snd (collision_loop E cnt s))
   \<and> cnt \<le> fst (collision_loop E cnt s)
   \<and> fst (collision_loop E cnt s) \<le> max cnt MAX_COLLISIONS
   \<and> (\<exists>r. major_calls s (snd (collision_loop E cnt s))
            = replicate (fst (collision_loop E cnt s) - cnt) (Call_collsion_detect True)
              @ [Call_collsion_detect r]
          \<and> (fst (collision_loop E cnt s) < MAX_COLLISIONS \<longrightarrow> \<not> r))"
proof (induction E cnt s rule: collision_loop.induct)
  case (1 E cnt s)
  let ?s1 = "snd (collsion_detect E s)"
  note d = collsion_detect_calls [of s E]
  show ?case
  proof (cases "fst (collsion_detect E s) \<and> cnt < MAX_COLLISIONS")
    case False
    with collision_loop.simps [of E cnt s] have eq: "collision_loop E cnt s = (cnt, ?s1)"
      by auto
    from False have "cnt < MAX_COLLISIONS \<longrightarrow> \<not> fst (collsion_detect E s)"
      by blast
    with d show ?thesis
      unfolding eq by simp
  next
    case True
    let ?s2 = "collision_pass E ?s1"
    let ?n = "fst (collision_loop E (Suc cnt) ?s2)"
    let ?s' = "snd (collision_loop E (Suc cnt) ?s2)"
    from True have eq: "collision_loop E cnt s = collision_loop E (Suc cnt) ?s2"
      by (subst collision_loop.simps) simp
    from "1.IH" [OF True] obtain r where
      ih: "extends ?s2 ?s'" "Suc cnt \<le> ?n" "?n \<le> max (Suc cnt) MAX_COLLISIONS"
        "major_calls ?s2 ?s' = replicate (?n - Suc cnt) (Call_collsion_detect True)
              @ [Call_collsion_detect r]"
        "?n < MAX_COLLISIONS \<longrightarrow> \<not> r"
      by blast
    from d True have a: "extends s ?s1" "major_calls s ?s1 = [Call_collsion_detect True]"
      by simp_all
    from major_then_quiet [OF a(1) quiet_collision_pass [of ?s1 E]] a
    have b: "extends s ?s2" "major_calls s ?s2 = [Call_collsion_detect True]"
      by simp_all
    from major_calls_trans [OF b(1) ih(1)] b ih
    have c: "major_calls s ?s' = Call_collsion_detect True
        # replicate (?n - Suc cnt) (Call_collsion_detect True) @ [Call_collsion_detect r]"
      by simp
    from ih(2) have "?n - cnt = Suc (?n - Suc cnt)" by simp
    with c have c': "major_calls s ?s' = replicate (?n - cnt) (Call_collsion_detect True)
        @ [Call_collsion_detect r]"
      by simp
    from True ih(3) have "?n \<le> max cnt MAX_COLLISIONS" by simp
    with extends_trans [OF b(1) ih(1)] ih(2) ih(5) c' show ?thesis
      unfolding eq by auto
  qed
qed

lemma collision_loop_states:
  "snd (collision_loop E cnt s)
     = snd (collsion_detect E ((collision_round E ^^ (fst (collision_loop E cnt s) - cnt)) s))
   \<and> (\<forall>k < fst (collision_loop E cnt s) - cnt.
         fst (collsion_detect E ((collision_round E ^^ k) s)))
   \<and> (fst (collision_loop E cnt s) < MAX_COLLISIONS \<longrightarrow>
         \<not> fst (collsion_detect E
              ((collision_round E ^^ (fst (collision_loop E cnt s) - cnt)) s)))"
proof (induction E cnt s rule: collision_loop.induct)
  case (1 E cnt s)
  show ?case
  proof (cases "fst (collsion_detect E s) \<and> cnt < MAX_COLLISIONS")
    case False
    with collision_loop.simps [of E cnt s]
    have eq: "collision_loop E cnt s = (cnt, snd (collsion_detect E s))"
      by auto
    from False show ?thesis
      unfolding eq by auto
  next
    case True
    let ?s2 = "collision_round E s"
    let ?n = "fst (collision_loop E (Suc cnt) ?s2)"
    from True have eq: "collision_loop E cnt s = collision_loop E (Suc cnt) ?s2"
      by (subst collision_loop.simps) (simp add: collision_round_def)
    note ih = "1.IH" [OF True, folded collision_round_def]
    from collision_loop_calls [of ?s2 E "Suc cnt"] have le: "Suc cnt \<le> ?n" by simp
    then have n: "?n - cnt = Suc (?n - Suc cnt)" by simp
    have all: "fst (collsion_detect E ((collision_round E ^^ k) s))" if "k < ?n - cnt" for k
    proof (cases k)
      case 0
      with True show ?thesis by simp
    next
      case (Suc j)
      with that n have "j < ?n - Suc cnt" by simp
      with ih have "fst (collsion_detect E ((collision_round E ^^ j) ?s2))" by blast
      with Suc show ?thesis by (simp add: funpow_swap1)
    qed
    from ih all show ?thesis
      unfolding eq n by (simp add: funpow_swap1)
  qed
qed

lemma contact_loop_calls:
  "extends s (snd (contact_loop E cnt s))
   \<and> cnt \<le> fst (contact_loop E cnt s)
   \<and> fst (contact_loop E cnt s) \<le> max cnt MAX_CONTACTS
   \<and> (\<exists>r. major_calls s (snd (contact_loop E cnt s))
            = concat (map (contact_pass_calls False) [cnt..<fst (contact_loop E cnt s)])
              @ [Call_contact_detect (fst (contact_loop E cnt s)) False r]
          \<and> (fst (contact_loop E cnt s) < MAX_CONTACTS \<longrightarrow> \<not> r))"
proof (induction E cnt s rule: contact_loop.induct)
  case (1 E cnt s)
  let ?s1 = "snd (contact_detect E cnt False s)"
  note d = contact_detect_calls [of s E cnt False]
  show ?case
  proof (cases "fst (contact_detect E cnt False s) \<and> cnt < MAX_CONTACTS")
    case False
    with contact_loop.simps [of E cnt s] have eq: "contact_loop E cnt s = (cnt, ?s1)"
      by auto
    from False have "cnt < MAX_CONTACTS \<longrightarrow> \<not> fst (contact_detect E cnt False s)"
      by blast
    with d show ?thesis
      unfolding eq by simp
  next
    case True
    let ?s2 = "create_contact_graph E False ?s1"
    let ?n = "fst (contact_loop E (Suc cnt) ?s2)"
    let ?s' = "snd (contact_loop E (Suc cnt) ?s2)"
    from True have eq: "contact_loop E cnt s = contact_loop E (Suc cnt) ?s2"
      by (subst contact_loop.simps) simp
    from "1.IH" [OF True] obtain r where
      ih: "extends ?s2 ?s'" "Suc cnt \<le> ?n" "?n \<le> max (Suc cnt) MAX_CONTACTS"
        "major_calls ?s2 ?s' = concat (map (contact_pass_calls False) [Suc cnt..<?n])
              @ [Call_contact_detect ?n False r]"
        "?n < MAX_CONTACTS \<longrightarrow> \<not> r"
      by blast
    from d True have a: "extends s ?s1" "major_calls s ?s1 = [Call_contact_detect cnt False True]"
      by simp_all
    note g = create_contact_graph_calls [of ?s1 E False]
    from major_calls_trans [of s ?s1 ?s2] extends_trans [of s ?s1 ?s2] a g
    have b: "extends s ?s2" "major_calls s ?s2 = contact_pass_calls False cnt"
      by (simp_all add: contact_pass_calls_def)
    from ih(2) have "[cnt..<?n] = cnt # [Suc cnt..<?n]"
      by (simp add: upt_conv_Cons)
    with major_calls_trans [OF b(1) ih(1)] b ih
    have c: "major_calls s ?s' = concat (map (contact_pass_calls False) [cnt..<?n])
              @ [Call_contact_detect ?n False r]"
      by simp
    from True ih(3) have "?n \<le> max cnt MAX_CONTACTS" by simp
    with extends_trans [OF b(1) ih(1)] ih(2) ih(5) c show ?thesis
      unfolding eq by auto
  qed
qed

lemma shock_loop_once:
  "MAX_SHOCK_PROP \<le> cnt \<Longrightarrow> shock_loop E cnt s = (cnt, snd (contact_detect E cnt True s))"
  by (subst shock_loop.simps) simp

lemma shock_propagation_calls:
  "fst (shock_propagation E (m, s)) = m
   \<and> extends s (snd (shock_propagation E (m, s)))
   \<and> major_calls s (snd (shock_propagation E (m, s)))
      = (if m = MAX_CONTACTS
         then [Call_contact_detect m True (fst (contact_detect E m True s))] else [])"
proof (cases "m = MAX_CONTACTS")
  case False
  then show ?thesis
    by (simp add: shock_propagation_def major_calls_def new_calls_def)
next
  case True
  then have "MAX_SHOCK_PROP \<le> m"
    by (simp add: MAX_CONTACTS_def MAX_SHOCK_PROP_def)
  from shock_loop_once [OF this] True contact_detect_calls [of s E m True] show ?thesis
    by (simp add: shock_propagation_def)
qed

subsection \<open>The major calls of a whole tick\<close>

lemma calls_chain:
  assumes "extends s t \<and> major_calls s t = a" and "extends t u \<and> major_calls t u = b"
  shows "extends s u \<and> major_calls s u = a @ b"
  using assms major_calls_trans [of s t u] extends_trans [of s t u] by simp

lemma quiet_calls: "quiet s t \<Longrightarrow> extends s t \<and> major_calls s t = []"
  by (simp add: quiet_def)

lemma shuffle_calls:
  assumes "shuffle E s = Some s1"
  shows "trace s1 = trace s @ replicate 30 Call_rand"
    and "extends s s1 \<and> major_calls s s1 = replicate 30 Call_rand"
    and "num_bodies s1 \<noteq> 0"
proof -
  from assms have l: "shuffle_loop E 0 s = Some s1" by (simp add: shuffle_def)
  from shuffle_loop_inv [OF l] show t: "trace s1 = trace s @ replicate 30 Call_rand"
    by simp
  then show "extends s s1 \<and> major_calls s s1 = replicate 30 Call_rand"
    by (simp add: extends_def major_calls_def new_calls_def)
  from l obtain t where "swap_attempt E s = Some t"
    by (subst (asm) shuffle_loop.simps) (auto split: option.splits)
  then have "num_bodies s \<noteq> 0" by (rule swap_attempt_Some)
  with shuffle_loop_inv [OF l] show "num_bodies s1 \<noteq> 0"
    by (simp add: num_bodies_def)
qed

lemma contact_loop_entry_calls:
  "extends s (contact_loop_entry E s)
   \<and> collision_passes E s \<le> MAX_COLLISIONS
   \<and> (\<exists>r. major_calls s (contact_loop_entry E s)
            = replicate (collision_passes E s) (Call_collsion_detect True)
              @ [Call_collsion_detect r, Call_create_contact_graph True]
          \<and> (collision_passes E s < MAX_COLLISIONS \<longrightarrow> \<not> r))"
proof -
  let ?a = "before_collisions E s"
  let ?b = "snd (collision_loop E 0 ?a)"
  let ?c = "after_collisions E ?b"
  let ?g = "create_contact_graph E True ?c"
  let ?d = "before_contacts E ?c"
  from collision_loop_calls [of ?a E 0] obtain r where
    l: "extends ?a ?b" "collision_passes E s \<le> MAX_COLLISIONS"
      "major_calls ?a ?b = replicate (collision_passes E s) (Call_collsion_detect True)
              @ [Call_collsion_detect r]"
      "collision_passes E s < MAX_COLLISIONS \<longrightarrow> \<not> r"
    by (auto simp: collision_passes_def)
  have 1: "extends s ?b \<and> major_calls s ?b
      = [] @ replicate (collision_passes E s) (Call_collsion_detect True) @ [Call_collsion_detect r]"
    using l by (intro calls_chain [OF quiet_calls [OF quiet_before_collisions]]) simp
  have 2: "extends s ?c \<and> major_calls s ?c
      = ([] @ replicate (collision_passes E s) (Call_collsion_detect True) @ [Call_collsion_detect r]) @ []"
    by (rule calls_chain [OF 1 quiet_calls [OF quiet_after_collisions]])
  have 3: "extends s ?g \<and> major_calls s ?g
      = (([] @ replicate (collision_passes E s) (Call_collsion_detect True) @ [Call_collsion_detect r]) @ [])
        @ [Call_create_contact_graph True]"
    by (rule calls_chain [OF 2 create_contact_graph_calls])
  have 4: "extends s ?d \<and> major_calls s ?d
      = ((([] @ replicate (collision_passes E s) (Call_collsion_detect True) @ [Call_collsion_detect r]) @ [])
        @ [Call_create_contact_graph True]) @ []"
    unfolding before_contacts_def
    by (rule calls_chain [OF 3 quiet_calls [OF quiet_phases(4)]])
  have e: "contact_loop_entry E s = ?d"
    by (simp add: contact_loop_entry_def Let_def)
  from 4 l show ?thesis
    unfolding e by auto
qed

lemma tick_after_shuffle_calls:
  "extends s (tick_after_shuffle E s)
   \<and> collision_passes E s \<le> MAX_COLLISIONS
   \<and> contact_passes E s \<le> MAX_CONTACTS
   \<and> (\<exists>r1 r2 r3. major_calls s (tick_after_shuffle E s)
          = replicate (collision_passes E s) (Call_collsion_detect True)
            @ [Call_collsion_detect r1, Call_create_contact_graph True]
            @ concat (map (contact_pass_calls False) [0..<contact_passes E s])
            @ [Call_contact_detect (contact_passes E s) False r2, Call_create_contact_graph False]
            @ (if contact_passes E s = MAX_CONTACTS
               then [Call_contact_detect (contact_passes E s) True r3] else [])
        \<and> (collision_passes E s < MAX_COLLISIONS \<longrightarrow> \<not> r1)
        \<and> (contact_passes E s < MAX_CONTACTS \<longrightarrow> \<not> r2))"
proof -
  let ?n = "collision_passes E s"
  let ?m = "contact_passes E s"
  let ?d = "contact_loop_entry E s"
  let ?e = "snd (contact_loop E 0 ?d)"
  let ?f = "create_contact_graph E False ?e"
  let ?g = "snd (shock_propagation E (?m, ?f))"
  let ?h = "for_bodies (integrate_pos E) ?g"
  from contact_loop_entry_calls [of s E] obtain r1 where
    d: "extends s ?d \<and> major_calls s ?d
          = replicate ?n (Call_collsion_detect True)
            @ [Call_collsion_detect r1, Call_create_contact_graph True]"
      and n: "?n \<le> MAX_COLLISIONS" "?n < MAX_COLLISIONS \<longrightarrow> \<not> r1"
    by blast
  from contact_loop_calls [of ?d E 0] obtain r2 where
    e: "extends ?d ?e \<and> major_calls ?d ?e
          = concat (map (contact_pass_calls False) [0..<?m]) @ [Call_contact_detect ?m False r2]"
      and m: "?m \<le> MAX_CONTACTS" "?m < MAX_CONTACTS \<longrightarrow> \<not> r2"
    by (auto simp: contact_passes_def)
  note 1 = calls_chain [OF d e]
  note 2 = calls_chain [OF 1 create_contact_graph_calls [of ?e E False]]
  have g: "extends ?f ?g \<and> major_calls ?f ?g
      = (if ?m = MAX_CONTACTS
         then [Call_contact_detect ?m True (fst (contact_detect E ?m True ?f))] else [])"
    using shock_propagation_calls [of E ?m ?f] by simp
  note 3 = calls_chain [OF 2 g]
  note 4 = calls_chain [OF 3 quiet_calls [OF quiet_phases(5) [of ?g E]]]
  have t: "tick_after_shuffle E s = ?h"
    by (simp add: tick_after_shuffle_def Let_def contact_phase_def contact_passes_def)
  from 4 have "extends s ?h" by simp
  moreover from 4 have "major_calls s ?h
          = replicate ?n (Call_collsion_detect True)
            @ [Call_collsion_detect r1, Call_create_contact_graph True]
            @ concat (map (contact_pass_calls False) [0..<?m])
            @ [Call_contact_detect ?m False r2, Call_create_contact_graph False]
            @ (if ?m = MAX_CONTACTS
               then [Call_contact_detect ?m True (fst (contact_detect E ?m True ?f))] else [])"
    by simp
  ultimately show ?thesis
    unfolding t using n m by blast
qed

lemma filter_new_calls_major:
  assumes "\<And>e. P e \<Longrightarrow> \<not> primitive_call e"
  shows "filter P (new_calls s s') = filter P (major_calls s s')"
proof -
  have "filter P (major_calls s s') = filter (\<lambda>e. \<not> primitive_call e \<and> P e) (new_calls s s')"
    by (simp add: major_calls_def)
  also have "\<dots> = filter P (new_calls s s')"
    using assms by (intro filter_cong) auto
  finally show ?thesis by simp
qed

lemma contact_pass_filters:
  "filter shock_call (concat (map (contact_pass_calls False) ks)) = []"
  "filter collsion_call (concat (map (contact_pass_calls b) ks)) = []"
  "filter plain_contact_detect (concat (map (contact_pass_calls False) ks))
     = map (\<lambda>k. Call_contact_detect k False True) ks"
  "filter contact_call (concat (map (contact_pass_calls b) ks))
     = concat (map (contact_pass_calls b) ks)"
  "Call_rand \<notin> set (concat (map (contact_pass_calls b) ks))"
  by (induction ks) (simp_all add: contact_pass_calls_def)

lemma idle_func_calls:
  assumes "shuffle E s = Some s1"
  shows "idle_func E s = Some (tick_after_shuffle E s1)"
    and "extends s (tick_after_shuffle E s1)"
    and "new_calls s (tick_after_shuffle E s1)
          = replicate 30 Call_rand @ new_calls s1 (tick_after_shuffle E s1)"
proof -
  show "idle_func E s = Some (tick_after_shuffle E s1)"
    using assms by (simp add: idle_func_def)
  note sh = shuffle_calls [OF assms]
  from tick_after_shuffle_calls [of s1 E] have t: "extends s1 (tick_after_shuffle E s1)"
    by simp
  from sh(2) t show "extends s (tick_after_shuffle E s1)"
    using extends_trans by blast
  from sh(2) have "extends s s1" by simp
  from new_calls_trans [OF this t] sh(1) show "new_calls s (tick_after_shuffle E s1)
          = replicate 30 Call_rand @ new_calls s1 (tick_after_shuffle E s1)"
    by (simp add: new_callsI)
qed

lemma tick_shock_calls:
  assumes "shuffle E s = Some s1"
  shows "\<exists>r. filter shock_call (new_calls s (tick_after_shuffle E s1))
           = (if contact_passes E s1 = MAX_CONTACTS
              then [Call_contact_detect MAX_CONTACTS True r] else [])"
proof -
  from tick_after_shuffle_calls [of s1 E] obtain r1 r2 r3 where
    m: "major_calls s1 (tick_after_shuffle E s1)
          = replicate (collision_passes E s1) (Call_collsion_detect True)
            @ [Call_collsion_detect r1, Call_create_contact_graph True]
            @ concat (map (contact_pass_calls False) [0..<contact_passes E s1])
            @ [Call_contact_detect (contact_passes E s1) False r2, Call_create_contact_graph False]
            @ (if contact_passes E s1 = MAX_CONTACTS
               then [Call_contact_detect (contact_passes E s1) True r3] else [])"
    by blast
  have p: "\<not> primitive_call e" if "shock_call e" for e
    using that by (cases e) simp_all
  have "filter shock_call (new_calls s (tick_after_shuffle E s1))
      = filter shock_call (major_calls s1 (tick_after_shuffle E s1))"
    by (simp add: idle_func_calls(3) [OF assms] filter_new_calls_major [of shock_call, OF p])
  also have "\<dots> = (if contact_passes E s1 = MAX_CONTACTS
              then [Call_contact_detect MAX_CONTACTS True r3] else [])"
    unfolding m by (simp add: contact_pass_filters)
  finally show ?thesis ..
qed

lemma tick_plain_detects:
  assumes "shuffle E s = Some s1"
  shows "\<exists>r. filter plain_contact_detect (new_calls s (tick_after_shuffle E s1))
           = map (\<lambda>k. Call_contact_detect k False True) [0..<contact_passes E s1]
             @ [Call_contact_detect (contact_passes E s1) False r]
         \<and> (contact_passes E s1 < MAX_CONTACTS \<longrightarrow> \<not> r)"
proof -
  from tick_after_shuffle_calls [of s1 E] obtain r1 r2 r3 where
    m: "major_calls s1 (tick_after_shuffle E s1)
          = replicate (collision_passes E s1) (Call_collsion_detect True)
            @ [Call_collsion_detect r1, Call_create_contact_graph True]
            @ concat (map (contact_pass_calls False) [0..<contact_passes E s1])
            @ [Call_contact_detect (contact_passes E s1) False r2, Call_create_contact_graph False]
            @ (if contact_passes E s1 = MAX_CONTACTS
               then [Call_contact_detect (contact_passes E s1) True r3] else [])"
    and r: "contact_passes E s1 < MAX_CONTACTS \<longrightarrow> \<not> r2"
    by blast
  have p: "\<not> primitive_call e" if "plain_contact_detect e" for e
    using that by (cases e) simp_all
  have "filter plain_contact_detect (new_calls s (tick_after_shuffle E s1))
      = filter plain_contact_detect (major_calls s1 (tick_after_shuffle E s1))"
    by (simp add: idle_func_calls(3) [OF assms] filter_new_calls_major [of plain_contact_detect, OF p])
  also have "\<dots> = map (\<lambda>k. Call_contact_detect k False True) [0..<contact_passes E s1]
             @ [Call_contact_detect (contact_passes E s1) False r2]"
    unfolding m by (simp add: contact_pass_filters)
  finally show ?thesis using r by blast
qed

lemma tick_contact_calls:
  assumes "shuffle E s = Some s1"
  shows "\<exists>r r'. filter contact_call (new_calls s (tick_after_shuffle E s1))
           = Call_create_contact_graph True
             # concat (map (contact_pass_calls False) [0..<contact_passes E s1])
             @ [Call_contact_detect (contact_passes E s1) False r, Call_create_contact_graph False]
             @ (if contact_passes E s1 = MAX_CONTACTS
                then [Call_contact_detect MAX_CONTACTS True r'] else [])
         \<and> (contact_passes E s1 < MAX_CONTACTS \<longrightarrow> \<not> r)"
proof -
  from tick_after_shuffle_calls [of s1 E] obtain r1 r2 r3 where
    m: "major_calls s1 (tick_after_shuffle E s1)
          = replicate (collision_passes E s1) (Call_collsion_detect True)
            @ [Call_collsion_detect r1, Call_create_contact_graph True]
            @ concat (map (contact_pass_calls False) [0..<contact_passes E s1])
            @ [Call_contact_detect (contact_passes E s1) False r2, Call_create_contact_graph False]
            @ (if contact_passes E s1 = MAX_CONTACTS
               then [Call_contact_detect (contact_passes E s1) True r3] else [])"
    and r: "contact_passes E s1 < MAX_CONTACTS \<longrightarrow> \<not> r2"
    by blast
  have p: "\<not> primitive_call e" if "contact_call e" for e
    using that by (cases e) simp_all
  have "filter contact_call (new_calls s (tick_after_shuffle E s1))
      = filter contact_call (major_calls s1 (tick_after_shuffle E s1))"
    by (simp add: idle_func_calls(3) [OF assms] filter_new_calls_major [of contact_call, OF p])
  also have "\<dots> = Call_create_contact_graph True
             # concat (map (contact_pass_calls False) [0..<contact_passes E s1])
             @ [Call_contact_detect (contact_passes E s1) False r2, Call_create_contact_graph False]
             @ (if contact_passes E s1 = MAX_CONTACTS
                then [Call_contact_detect MAX_CONTACTS True r3] else [])"
    unfolding m by (simp add: contact_pass_filters)
  finally show ?thesis using r by blast
qed

lemma tick_collsion_calls:
  assumes "shuffle E s = Some s1"
  shows "\<exists>r. filter collsion_call (new_calls s (tick_after_shuffle E s1))
           = replicate (collision_passes E s1) (Call_collsion_detect True)
             @ [Call_collsion_detect r]
         \<and> (collision_passes E s1 < MAX_COLLISIONS \<longrightarrow> \<not> r)"
proof -
  from tick_after_shuffle_calls [of s1 E] obtain r1 r2 r3 where
    m: "major_calls s1 (tick_after_shuffle E s1)
          = replicate (collision_passes E s1) (Call_collsion_detect True)
            @ [Call_collsion_detect r1, Call_create_contact_graph True]
            @ concat (map (contact_pass_calls False) [0..<contact_passes E s1])
            @ [Call_contact_detect (contact_passes E s1) False r2, Call_create_contact_graph False]
            @ (if contact_passes E s1 = MAX_CONTACTS
               then [Call_contact_detect (contact_passes E s1) True r3] else [])"
    and r: "collision_passes E s1 < MAX_COLLISIONS \<longrightarrow> \<not> r1"
    by blast
  have p: "\<not> primitive_call e" if "collsion_call e" for e
    using that by (cases e) simp_all
  have "filter collsion_call (new_calls s (tick_after_shuffle E s1))
      = filter collsion_call (major_calls s1 (tick_after_shuffle E s1))"
    by (simp add: idle_func_calls(3) [OF assms] filter_new_calls_major [of collsion_call, OF p])
  also have "\<dots> = replicate (collision_passes E s1) (Call_collsion_detect True)
             @ [Call_collsion_detect r1]"
    unfolding m by (simp add: contact_pass_filters)
  finally show ?thesis using r by blast
qed

lemma tick_no_late_rand: "Call_rand \<notin> set (new_calls s1 (tick_after_shuffle E s1))"
proof
  assume "Call_rand \<in> set (new_calls s1 (tick_after_shuffle E s1))"
  then have a: "Call_rand \<in> set (major_calls s1 (tick_after_shuffle E s1))"
    by (simp add: major_calls_def)
  from tick_after_shuffle_calls [of s1 E] obtain r1 r2 r3 where
    m: "major_calls s1 (tick_after_shuffle E s1)
          = replicate (collision_passes E s1) (Call_collsion_detect True)
            @ [Call_collsion_detect r1, Call_create_contact_graph True]
            @ concat (map (contact_pass_calls False) [0..<contact_passes E s1])
            @ [Call_contact_detect (contact_passes E s1) False r2, Call_create_contact_graph False]
            @ (if contact_passes E s1 = MAX_CONTACTS
               then [Call_contact_detect (contact_passes E s1) True r3] else [])"
    by blast
  from a show False
    unfolding m using contact_pass_filters(5) [of False "[0..<contact_passes E s1]"]
    by (auto split: if_splits)
qed

subsection \<open>The snapshot and the first calls of a tick\<close>

lemma declare_buffers_fields:
  "heap (declare_buffers E s) = heap s"
  "sys_bVector (declare_buffers E s) = sys_bVector s"
  "bVector (declare_buffers E s) = bVector s"
  "prev_pos (declare_buffers E s) = replicate (num_bodies s) (uninitialised E)"
  "prev_vel (declare_buffers E s) = replicate (num_bodies s) (uninitialised E)"
  "rand_calls (declare_buffers E s) = rand_calls s"
  "trace (declare_buffers E s) = trace s"
  "num_bodies (declare_buffers E s) = num_bodies s"
  by (simp_all add: declare_buffers_def num_bodies_def)

lemma fold_trace:
  assumes "\<And>x t. trace (f x t) = trace t @ g x"
  shows "trace (fold f xs s) = trace s @ concat (map g xs)"
  by (induction xs arbitrary: s) (simp_all add: assms)

lemma fold_keeps_num_bodies:
  assumes "\<And>x t. num_bodies (f x t) = num_bodies t"
  shows "num_bodies (fold f xs s) = num_bodies s"
  by (induction xs arbitrary: s) (simp_all add: assms)

lemma snapshot_trace:
  "trace (snapshot s) = trace s
     @ concat (map (\<lambda>i. [Call_get_state_pos i, Call_get_state_vel i]) [0..<num_bodies s])"
  unfolding snapshot_def for_bodies_def by (rule fold_trace) simp

lemma restore_all_trace:
  "trace (restore_all s) = trace s
     @ concat (map (\<lambda>i. [Call_set_state_pos i, Call_set_state_vel i]) [0..<num_bodies s])"
  unfolding restore_all_def for_bodies_def by (rule fold_trace) simp

lemma integrate_all_trace:
  "trace (integrate_all E s) = trace s
     @ concat (map (\<lambda>i. [Call_integrate_vel i, Call_integrate_pos i]) [0..<num_bodies s])"
  unfolding integrate_all_def for_bodies_def by (rule fold_trace) simp

lemma restore_all_num_bodies [simp]: "num_bodies (restore_all s) = num_bodies s"
  unfolding restore_all_def for_bodies_def by (rule fold_keeps_num_bodies) simp

lemma collision_pass_calls:
  "new_calls s (collision_pass E s) =
     concat (map (\<lambda>i. [Call_set_state_pos i, Call_set_state_vel i]) [0..<num_bodies s])
     @ [Call_zero_forces, Call_add_gravity]
     @ concat (map (\<lambda>i. [Call_integrate_vel i, Call_integrate_pos i]) [0..<num_bodies s])"
  by (rule new_callsI) (simp add: collision_pass_def integrate_all_trace restore_all_trace)

lemma snapshot_invariant:
  "heap (fold (\<lambda>i s. get_state_vel i (get_state_pos i s)) xs s) = heap s
   \<and> sys_bVector (fold (\<lambda>i s. get_state_vel i (get_state_pos i s)) xs s) = sys_bVector s
   \<and> length (prev_pos (fold (\<lambda>i s. get_state_vel i (get_state_pos i s)) xs s)) = length (prev_pos s)
   \<and> length (prev_vel (fold (\<lambda>i s. get_state_vel i (get_state_pos i s)) xs s)) = length (prev_vel s)"
  by (rule fold_invariant) simp_all

lemma snapshot_slots:
  assumes "m \<le> length (prev_pos s)" and "m \<le> length (prev_vel s)"
  shows "\<forall>i < m.
      prev_pos (fold (\<lambda>i s. get_state_vel i (get_state_pos i s)) [0..<m] s) ! i
        = pos_state (heap s (sys_bVector s ! i))
    \<and> prev_vel (fold (\<lambda>i s. get_state_vel i (get_state_pos i s)) [0..<m] s) ! i
        = vel_state (heap s (sys_bVector s ! i))"
  using assms
proof (induction m)
  case 0
  then show ?case by simp
next
  case (Suc m)
  let ?t = "fold (\<lambda>i s. get_state_vel i (get_state_pos i s)) [0..<m] s"
  from Suc.prems have le: "m \<le> length (prev_pos s)" "m \<le> length (prev_vel s)" by simp_all
  note ih = Suc.IH [OF le]
  note iv = snapshot_invariant [of "[0..<m]" s]
  from Suc.prems iv have lt: "m < length (prev_pos ?t)" "m < length (prev_vel ?t)" by simp_all
  show ?case
    using ih iv lt by (simp only: fold_upt_Suc) (auto simp: nth_list_update less_Suc_eq)
qed

lemma snapshot_buffers:
  assumes "length (prev_pos s) = num_bodies s" and "length (prev_vel s) = num_bodies s"
  shows "prev_pos (snapshot s) = map (\<lambda>a. pos_state (heap s a)) (sys_bVector s)"
    and "prev_vel (snapshot s) = map (\<lambda>a. vel_state (heap s a)) (sys_bVector s)"
proof -
  have le: "num_bodies s \<le> length (prev_pos s)" "num_bodies s \<le> length (prev_vel s)"
    using assms by simp_all
  note sl = snapshot_slots [OF le]
  note iv = snapshot_invariant [of "[0..<num_bodies s]" s]
  show "prev_pos (snapshot s) = map (\<lambda>a. pos_state (heap s a)) (sys_bVector s)"
    using sl iv assms
    by (intro nth_equalityI) (simp_all add: snapshot_def for_bodies_def num_bodies_def)
  show "prev_vel (snapshot s) = map (\<lambda>a. vel_state (heap s a)) (sys_bVector s)"
    using sl iv assms
    by (intro nth_equalityI) (simp_all add: snapshot_def for_bodies_def num_bodies_def)
qed



lemma quiet_extends: "quiet s t \<Longrightarrow> extends s t"
  by (simp add: quiet_def)

lemma extends_before_contacts: "extends s (before_contacts E s)"
proof -
  have "extends s (create_contact_graph E True s)"
    using create_contact_graph_calls [of s E True] by simp
  moreover have "extends (create_contact_graph E True s) (before_contacts E s)"
    unfolding before_contacts_def by (rule quiet_extends) (rule quiet_phases)
  ultimately show ?thesis by (rule extends_trans)
qed

lemma extends_entry_from_snapshot:
  "extends (snapshot (declare_buffers E s)) (contact_loop_entry E s)"
proof -
  let ?a = "snapshot (declare_buffers E s)"
  let ?b = "before_collisions E s"
  let ?c = "snd (collision_loop E 0 ?b)"
  let ?d = "after_collisions E ?c"
  have 1: "extends ?a ?b"
    unfolding before_collisions_def by (rule quiet_extends) (rule quiet_tentative_step)
  have 2: "extends ?b ?c"
    using collision_loop_calls [of ?b E 0] by simp
  have 3: "extends ?c ?d"
    by (rule quiet_extends) (rule quiet_after_collisions)
  have 4: "extends ?d (before_contacts E ?d)"
    by (rule extends_before_contacts)
  have e: "contact_loop_entry E s = before_contacts E ?d"
    by (simp add: contact_loop_entry_def Let_def)
  show ?thesis
    unfolding e by (rule extends_trans [OF 1 extends_trans [OF 2 extends_trans [OF 3 4]]])
qed

lemma tick_first_calls:
  assumes "num_bodies s1 \<noteq> 0"
  shows "\<exists>rest. new_calls s1 (tick_after_shuffle E s1)
           = [Call_get_state_pos 0, Call_get_state_vel 0] @ rest"
proof -
  let ?a = "snapshot (declare_buffers E s1)"
  let ?tail = "concat (map (\<lambda>i. [Call_get_state_pos i, Call_get_state_vel i])
      [Suc 0..<num_bodies s1])"
  from assms have u: "[0..<num_bodies s1] = 0 # [Suc 0..<num_bodies s1]"
    by (simp add: upt_conv_Cons)
  have "trace ?a = trace s1
     @ concat (map (\<lambda>i. [Call_get_state_pos i, Call_get_state_vel i]) [0..<num_bodies s1])"
    by (simp add: snapshot_trace declare_buffers_fields)
  then have "trace ?a = trace s1 @ ([Call_get_state_pos 0, Call_get_state_vel 0] @ ?tail)"
    by (simp only: u) simp
  then have a: "new_calls s1 ?a = [Call_get_state_pos 0, Call_get_state_vel 0] @ ?tail"
    by (rule new_callsI)
  have e1: "extends s1 ?a"
    by (rule quiet_extends) (rule quiet_trans [OF quiet_primitives(13) quiet_phases(1)])
  have e3: "extends ?a (contact_loop_entry E s1)"
    by (rule extends_entry_from_snapshot)
  have e4: "extends (contact_loop_entry E s1) (tick_after_shuffle E s1)"
  proof -
    let ?d = "contact_loop_entry E s1"
    let ?e = "snd (contact_loop E 0 ?d)"
    let ?f = "create_contact_graph E False ?e"
    let ?g = "snd (shock_propagation E (fst (contact_loop E 0 ?d), ?f))"
    have 1: "extends ?d ?e" using contact_loop_calls [of ?d E 0] by simp
    have 2: "extends ?e ?f" using create_contact_graph_calls [of ?e E False] by simp
    have 3: "extends ?f ?g"
      using shock_propagation_calls [of E "fst (contact_loop E 0 ?d)" ?f] by simp
    have 4: "extends ?g (for_bodies (integrate_pos E) ?g)"
      by (rule quiet_extends) (rule quiet_phases)
    have t: "tick_after_shuffle E s1 = for_bodies (integrate_pos E) ?g"
      by (simp add: tick_after_shuffle_def Let_def contact_phase_def)
    show ?thesis
      unfolding t by (rule extends_trans [OF 1 extends_trans [OF 2 extends_trans [OF 3 4]]])
  qed
  have "extends ?a (tick_after_shuffle E s1)"
    by (rule extends_trans [OF e3 e4])
  from new_calls_trans [OF e1 this] a show ?thesis
    by simp
qed

subsection \<open>Detections that never or always apply an impulse\<close>

lemma detect_results:
  "fst (contact_detect E c sh s) = fst (contact_impulses E c sh (heap s) (sys_bVector s))"
  "fst (collsion_detect E s)
     = fst (collision_impulses E (prev_pos s) (prev_vel s) (heap s) (sys_bVector s))"
  by (simp_all add: contact_detect_def collsion_detect_def split: prod.splits)

lemma contact_loop_saturates:
  "(\<forall>c sh h bv. fst (contact_impulses E c sh h bv)) \<Longrightarrow> cnt \<le> MAX_CONTACTS
     \<Longrightarrow> fst (contact_loop E cnt s) = MAX_CONTACTS"
proof (induction E cnt s rule: contact_loop.induct)
  case (1 E cnt s)
  from "1.prems"(1) have d: "fst (contact_detect E cnt False s)"
    by (simp add: detect_results)
  show ?case
  proof (cases "cnt < MAX_CONTACTS")
    case True
    with d have c: "fst (contact_detect E cnt False s) \<and> cnt < MAX_CONTACTS" by simp
    from True have "Suc cnt \<le> MAX_CONTACTS" by simp
    from "1.IH" [OF c "1.prems"(1) this] c show ?thesis
      by (subst contact_loop.simps) simp
  next
    case False
    with "1.prems"(2) have "cnt = MAX_CONTACTS" by simp
    then show ?thesis
      by (subst contact_loop.simps) simp
  qed
qed

lemma contact_loop_stops:
  "\<not> fst (contact_detect E cnt False s) \<Longrightarrow> fst (contact_loop E cnt s) = cnt"
  by (subst contact_loop.simps) simp

lemma collision_loop_saturates:
  "(\<forall>pp pv h bv. fst (collision_impulses E pp pv h bv)) \<Longrightarrow> cnt \<le> MAX_COLLISIONS
     \<Longrightarrow> fst (collision_loop E cnt s) = MAX_COLLISIONS"
proof (induction E cnt s rule: collision_loop.induct)
  case (1 E cnt s)
  from "1.prems"(1) have d: "fst (collsion_detect E s)"
    by (simp add: detect_results)
  show ?case
  proof (cases "cnt < MAX_COLLISIONS")
    case True
    with d have c: "fst (collsion_detect E s) \<and> cnt < MAX_COLLISIONS" by simp
    from True have "Suc cnt \<le> MAX_COLLISIONS" by simp
    from "1.IH" [OF c "1.prems"(1) this] c show ?thesis
      by (subst collision_loop.simps) simp
  next
    case False
    with "1.prems"(2) have "cnt = MAX_COLLISIONS" by simp
    then show ?thesis
      by (subst collision_loop.simps) simp
  qed
qed

lemma collision_loop_stops:
  "\<not> fst (collsion_detect E s) \<Longrightarrow> fst (collision_loop E cnt s) = cnt"
  by (subst collision_loop.simps) simp

lemma shuffle_result:
  assumes "map_option sys_bVector (shuffle E toy_world) = Some [0, 2, 1]"
  shows "shuffle E toy_world = Some shuffled_world"
proof -
  from assms obtain s' where s': "shuffle E toy_world = Some s'" and v: "sys_bVector s' = [0, 2, 1]"
    by auto
  from s' have "shuffle_loop E 0 toy_world = Some s'" by (simp add: shuffle_def)
  note inv = shuffle_loop_inv [OF this]
  have "s' = shuffled_world"
    using inv v by (intro world.equality) (simp_all add: shuffled_world_def toy_world_def)
  with s' show ?thesis by simp
qed

lemma shuffle_toy: "shuffle toy_env toy_world = Some shuffled_world"
  by (rule shuffle_result) code_simp

lemma shuffle_busy: "shuffle busy_env toy_world = Some shuffled_world"
  by (rule shuffle_result) code_simp

lemma toy_env_calm:
  "\<not> fst (contact_detect toy_env c sh s)" "\<not> fst (collsion_detect toy_env s)"
  by (simp_all add: detect_results toy_env_def)

lemma busy_env_busy:
  "\<forall>c sh h bv. fst (contact_impulses busy_env c sh h bv)"
  "\<forall>pp pv h bv. fst (collision_impulses busy_env pp pv h bv)"
  by (simp_all add: busy_env_def)

lemma toy_passes:
  "contact_passes toy_env s = 0" "collision_passes toy_env s = 0"
  by (simp_all add: contact_passes_def collision_passes_def contact_loop_stops
      collision_loop_stops toy_env_calm)

lemma busy_passes:
  "contact_passes busy_env s = MAX_CONTACTS" "collision_passes busy_env s = MAX_COLLISIONS"
  by (simp_all add: contact_passes_def collision_passes_def contact_loop_saturates
      collision_loop_saturates busy_env_busy)

subsection \<open>The state after a pass and after the collision loop\<close>

lemma fold_fun_upd_distinct:
  "distinct xs \<Longrightarrow>
     fold (\<lambda>a h. h(a := F (h a))) xs h a = (if a \<in> set xs then F (h a) else h a)"
proof (induction xs arbitrary: h)
  case Nil
  then show ?case by simp
next
  case (Cons x xs)
  then show ?case by auto
qed

lemma zero_forces_heap:
  "distinct (sys_bVector s) \<Longrightarrow>
     heap (zero_forces s) a =
       (if a \<in> set (sys_bVector s) then (heap s a)\<lparr>forces := replicate 6 0\<rparr> else heap s a)"
  using fold_fun_upd_distinct [where F = "\<lambda>bd. bd\<lparr>forces := replicate 6 0\<rparr>"
      and xs = "sys_bVector s" and h = "heap s" and a = a]
  by (simp add: zero_forces_def)

lemma add_gravity_heap:
  "distinct (sys_bVector s) \<Longrightarrow>
     heap (add_gravity E s) a =
       (if a \<in> set (sys_bVector s) then (heap s a)\<lparr>forces := gravity_force E (heap s a)\<rparr>
        else heap s a)"
  using fold_fun_upd_distinct [where F = "\<lambda>bd. bd\<lparr>forces := gravity_force E bd\<rparr>"
      and xs = "sys_bVector s" and h = "heap s" and a = a]
  by (simp add: add_gravity_def)

lemma fold_per_body:
  assumes step: "\<And>i t. sys_bVector t = sys_bVector s \<Longrightarrow> Q t \<Longrightarrow>
        heap (f i t) = (heap t)(sys_bVector s ! i := G i (heap t (sys_bVector s ! i)))
        \<and> sys_bVector (f i t) = sys_bVector s \<and> Q (f i t)"
    and Q: "Q s" and d: "distinct (sys_bVector s)"
  shows "m \<le> length (sys_bVector s) \<Longrightarrow>
     sys_bVector (fold f [0..<m] s) = sys_bVector s \<and> Q (fold f [0..<m] s)
     \<and> (\<forall>j < length (sys_bVector s). heap (fold f [0..<m] s) (sys_bVector s ! j) =
           (if j < m then G j (heap s (sys_bVector s ! j)) else heap s (sys_bVector s ! j)))
     \<and> (\<forall>a. a \<notin> set (sys_bVector s) \<longrightarrow> heap (fold f [0..<m] s) a = heap s a)"
proof (induction m)
  case 0
  then show ?case using Q by simp
next
  case (Suc m)
  let ?t = "fold f [0..<m] s"
  from Suc have IH: "sys_bVector ?t = sys_bVector s" "Q ?t"
      "\<forall>j < length (sys_bVector s). heap ?t (sys_bVector s ! j) =
           (if j < m then G j (heap s (sys_bVector s ! j)) else heap s (sys_bVector s ! j))"
      "\<forall>a. a \<notin> set (sys_bVector s) \<longrightarrow> heap ?t a = heap s a"
    by simp_all
  from Suc.prems have m: "m < length (sys_bVector s)" by simp
  note st = step [OF IH(1) IH(2), of m]
  have f: "fold f [0..<Suc m] s = f m ?t" by simp
  have h: "heap (f m ?t) = (heap ?t)(sys_bVector s ! m := G m (heap s (sys_bVector s ! m)))"
    using st IH(3) m by simp
  have "heap (f m ?t) (sys_bVector s ! j) =
           (if j < Suc m then G j (heap s (sys_bVector s ! j)) else heap s (sys_bVector s ! j))"
    if j: "j < length (sys_bVector s)" for j
  proof (cases "j = m")
    case True
    then show ?thesis by (simp add: h)
  next
    case False
    with d j m have "sys_bVector s ! j \<noteq> sys_bVector s ! m"
      by (simp add: nth_eq_iff_index_eq)
    then show ?thesis using IH(3) j False by (simp add: h less_Suc_eq)
  qed
  moreover have "heap (f m ?t) a = heap s a" if "a \<notin> set (sys_bVector s)" for a
  proof -
    from that m have "a \<noteq> sys_bVector s ! m" by auto
    then show ?thesis using IH(4) that by (simp add: h)
  qed
  ultimately show ?case unfolding f using st by simp
qed

lemma restore_all_frame:
  "sys_bVector (restore_all t) = sys_bVector t \<and> bVector (restore_all t) = bVector t
   \<and> prev_pos (restore_all t) = prev_pos t \<and> prev_vel (restore_all t) = prev_vel t
   \<and> rand_calls (restore_all t) = rand_calls t"
  unfolding restore_all_def by (rule for_bodies_invariant) simp_all

lemma integrate_all_frame:
  "sys_bVector (integrate_all E t) = sys_bVector t \<and> bVector (integrate_all E t) = bVector t
   \<and> prev_pos (integrate_all E t) = prev_pos t \<and> prev_vel (integrate_all E t) = prev_vel t
   \<and> rand_calls (integrate_all E t) = rand_calls t"
  unfolding integrate_all_def by (rule for_bodies_invariant) simp_all

lemma restore_all_heap:
  assumes d: "distinct (sys_bVector t)"
  shows "i < num_bodies t \<Longrightarrow> heap (restore_all t) (sys_bVector t ! i) = restored t i"
    and "a \<notin> set (sys_bVector t) \<Longrightarrow> heap (restore_all t) a = heap t a"
proof -
  have "sys_bVector (fold (\<lambda>i s. set_state_vel i (set_state_pos i s)) [0..<num_bodies t] t)
        = sys_bVector t
     \<and> (prev_pos (fold (\<lambda>i s. set_state_vel i (set_state_pos i s)) [0..<num_bodies t] t)
          = prev_pos t
        \<and> prev_vel (fold (\<lambda>i s. set_state_vel i (set_state_pos i s)) [0..<num_bodies t] t)
          = prev_vel t)
     \<and> (\<forall>j < length (sys_bVector t).
           heap (fold (\<lambda>i s. set_state_vel i (set_state_pos i s)) [0..<num_bodies t] t)
             (sys_bVector t ! j) =
           (if j < num_bodies t
            then (heap t (sys_bVector t ! j))\<lparr>pos_state := prev_pos t ! j,
                                              vel_state := prev_vel t ! j\<rparr>
            else heap t (sys_bVector t ! j)))
     \<and> (\<forall>a. a \<notin> set (sys_bVector t) \<longrightarrow>
           heap (fold (\<lambda>i s. set_state_vel i (set_state_pos i s)) [0..<num_bodies t] t) a
           = heap t a)"
    by (rule fold_per_body [where Q = "\<lambda>u. prev_pos u = prev_pos t \<and> prev_vel u = prev_vel t"
          and G = "\<lambda>j bd. bd\<lparr>pos_state := prev_pos t ! j, vel_state := prev_vel t ! j\<rparr>"])
       (simp_all add: d num_bodies_def)
  then show "i < num_bodies t \<Longrightarrow> heap (restore_all t) (sys_bVector t ! i) = restored t i"
    and "a \<notin> set (sys_bVector t) \<Longrightarrow> heap (restore_all t) a = heap t a"
    by (simp_all add: restore_all_def for_bodies_def restored_def num_bodies_def)
qed

lemma integrate_all_heap:
  assumes d: "distinct (sys_bVector t)"
  shows "i < num_bodies t \<Longrightarrow>
           heap (integrate_all E t) (sys_bVector t ! i) = euler_step E (heap t (sys_bVector t ! i))"
    and "a \<notin> set (sys_bVector t) \<Longrightarrow> heap (integrate_all E t) a = heap t a"
proof -
  have "sys_bVector (fold (\<lambda>i s. integrate_pos E i (integrate_vel E i s)) [0..<num_bodies t] t)
        = sys_bVector t
     \<and> True
     \<and> (\<forall>j < length (sys_bVector t).
           heap (fold (\<lambda>i s. integrate_pos E i (integrate_vel E i s)) [0..<num_bodies t] t)
             (sys_bVector t ! j) =
           (if j < num_bodies t then euler_step E (heap t (sys_bVector t ! j))
            else heap t (sys_bVector t ! j)))
     \<and> (\<forall>a. a \<notin> set (sys_bVector t) \<longrightarrow>
           heap (fold (\<lambda>i s. integrate_pos E i (integrate_vel E i s)) [0..<num_bodies t] t) a
           = heap t a)"
    by (rule fold_per_body [where Q = "\<lambda>u. True" and G = "\<lambda>j. euler_step E"])
       (auto simp add: d num_bodies_def euler_step_def)
  then show "i < num_bodies t \<Longrightarrow>
           heap (integrate_all E t) (sys_bVector t ! i) = euler_step E (heap t (sys_bVector t ! i))"
    and "a \<notin> set (sys_bVector t) \<Longrightarrow> heap (integrate_all E t) a = heap t a"
    by (simp_all add: integrate_all_def for_bodies_def num_bodies_def)
qed

lemma collision_pass_frame:
  "sys_bVector (collision_pass E t) = sys_bVector t" "bVector (collision_pass E t) = bVector t"
  "prev_pos (collision_pass E t) = prev_pos t" "prev_vel (collision_pass E t) = prev_vel t"
  "rand_calls (collision_pass E t) = rand_calls t"
  by (simp_all add: collision_pass_def integrate_all_frame restore_all_frame)

lemma after_collisions_frame:
  "sys_bVector (after_collisions E t) = sys_bVector t" "bVector (after_collisions E t) = bVector t"
  "prev_pos (after_collisions E t) = prev_pos t" "prev_vel (after_collisions E t) = prev_vel t"
  "rand_calls (after_collisions E t) = rand_calls t"
  by (simp_all add: after_collisions_def restore_all_frame)

lemma after_collisions_heap:
  assumes d: "distinct (sys_bVector t)"
  shows "i < num_bodies t \<Longrightarrow>
           heap (after_collisions E t) (sys_bVector t ! i) = with_gravity E (restored t i)"
    and "a \<notin> set (sys_bVector t) \<Longrightarrow> heap (after_collisions E t) a = heap t a"
proof -
  have v: "sys_bVector (restore_all t) = sys_bVector t" by (simp add: restore_all_frame)
  have d1: "distinct (sys_bVector (restore_all t))" "distinct (sys_bVector (zero_forces (restore_all t)))"
    using d by (simp_all add: v)
  show "heap (after_collisions E t) (sys_bVector t ! i) = with_gravity E (restored t i)"
    if "i < num_bodies t"
  proof -
    from that have m: "sys_bVector t ! i \<in> set (sys_bVector t)" by (simp add: num_bodies_def)
    show ?thesis
      using m restore_all_heap(1) [OF d that]
      by (simp add: after_collisions_def add_gravity_heap [OF d1(2)] zero_forces_heap [OF d1(1)] v
          with_gravity_def)
  qed
  show "heap (after_collisions E t) a = heap t a" if "a \<notin> set (sys_bVector t)"
    using that restore_all_heap(2) [OF d that]
    by (simp add: after_collisions_def add_gravity_heap [OF d1(2)] zero_forces_heap [OF d1(1)] v)
qed

lemma collision_pass_heap:
  assumes d: "distinct (sys_bVector t)"
  shows "i < num_bodies t \<Longrightarrow>
           heap (collision_pass E t) (sys_bVector t ! i)
             = euler_step E (with_gravity E (restored t i))"
    and "a \<notin> set (sys_bVector t) \<Longrightarrow> heap (collision_pass E t) a = heap t a"
proof -
  have p: "collision_pass E t = integrate_all E (after_collisions E t)"
    by (simp add: collision_pass_def after_collisions_def)
  have v: "sys_bVector (after_collisions E t) = sys_bVector t" by (rule after_collisions_frame)
  have n: "num_bodies (after_collisions E t) = num_bodies t" by (simp add: num_bodies_def v)
  from d have d1: "distinct (sys_bVector (after_collisions E t))" by (simp add: v)
  show "heap (collision_pass E t) (sys_bVector t ! i) = euler_step E (with_gravity E (restored t i))"
    if "i < num_bodies t"
    using integrate_all_heap(1) [OF d1, of i E] that after_collisions_heap(1) [OF d that, of E]
    by (simp add: p v n)
  show "heap (collision_pass E t) a = heap t a" if "a \<notin> set (sys_bVector t)"
    using integrate_all_heap(2) [OF d1, of a E] that after_collisions_heap(2) [OF d that, of E]
    by (simp add: p v)
qed

lemma collsion_detect_arrays:
  "prev_pos (snd (collsion_detect E t))
     = fst (snd (collision_impulses E (prev_pos t) (prev_vel t) (heap t) (sys_bVector t)))"
  "prev_vel (snd (collsion_detect E t))
     = fst (snd (snd (collision_impulses E (prev_pos t) (prev_vel t) (heap t) (sys_bVector t))))"
  "heap (snd (collsion_detect E t))
     = fst (snd (snd (snd (collision_impulses E (prev_pos t) (prev_vel t) (heap t) (sys_bVector t)))))"
  "sys_bVector (snd (collsion_detect E t))
     = snd (snd (snd (snd (collision_impulses E (prev_pos t) (prev_vel t) (heap t) (sys_bVector t)))))"
  by (simp_all add: collsion_detect_def split: prod.splits)

lemma before_collisions_arrays:
  "prev_pos (before_collisions E s) = map (\<lambda>a. pos_state (heap s a)) (sys_bVector s)"
  "prev_vel (before_collisions E s) = map (\<lambda>a. vel_state (heap s a)) (sys_bVector s)"
  "sys_bVector (before_collisions E s) = sys_bVector s"
proof -
  have l: "length (prev_pos (declare_buffers E s)) = num_bodies (declare_buffers E s)"
    "length (prev_vel (declare_buffers E s)) = num_bodies (declare_buffers E s)"
    by (simp_all add: declare_buffers_def num_bodies_def)
  have h: "heap (declare_buffers E s) = heap s" "sys_bVector (declare_buffers E s) = sys_bVector s"
    by (simp_all add: declare_buffers_def)
  show "prev_pos (before_collisions E s) = map (\<lambda>a. pos_state (heap s a)) (sys_bVector s)"
    using snapshot_buffers(1) [OF l]
    by (simp add: before_collisions_def tentative_step_def integrate_all_frame h)
  show "prev_vel (before_collisions E s) = map (\<lambda>a. vel_state (heap s a)) (sys_bVector s)"
    using snapshot_buffers(2) [OF l]
    by (simp add: before_collisions_def tentative_step_def integrate_all_frame h)
  show "sys_bVector (before_collisions E s) = sys_bVector s"
    using snapshot_invariant [of "[0..<num_bodies (declare_buffers E s)]" "declare_buffers E s"]
    by (simp add: before_collisions_def tentative_step_def integrate_all_frame h snapshot_def
        for_bodies_def)
qed

lemma collision_loop_arrays:
  "\<forall>pp pv h bv. \<exists>h'. collision_impulses E pp pv h bv = (True, pp, g pv, h', bv) \<Longrightarrow>
   cnt \<le> MAX_COLLISIONS \<Longrightarrow>
     prev_vel (snd (collision_loop E cnt s)) = (g ^^ Suc (MAX_COLLISIONS - cnt)) (prev_vel s)
     \<and> prev_pos (snd (collision_loop E cnt s)) = prev_pos s
     \<and> sys_bVector (snd (collision_loop E cnt s)) = sys_bVector s"
proof (induction E cnt s rule: collision_loop.induct)
  case (1 E cnt s)
  from "1.prems"(1) obtain h' where
    c: "collision_impulses E (prev_pos s) (prev_vel s) (heap s) (sys_bVector s)
          = (True, prev_pos s, g (prev_vel s), h', sys_bVector s)"
    by blast
  have d: "fst (collsion_detect E s)" by (simp add: detect_results c)
  have a: "prev_vel (snd (collsion_detect E s)) = g (prev_vel s)"
    "prev_pos (snd (collsion_detect E s)) = prev_pos s"
    "sys_bVector (snd (collsion_detect E s)) = sys_bVector s"
    by (simp_all add: collsion_detect_arrays c)
  show ?case
  proof (cases "cnt < MAX_COLLISIONS")
    case True
    with d have c: "fst (collsion_detect E s) \<and> cnt < MAX_COLLISIONS" by simp
    from True have le: "Suc cnt \<le> MAX_COLLISIONS" by simp
    from True have e: "Suc (MAX_COLLISIONS - cnt) = Suc (Suc (MAX_COLLISIONS - Suc cnt))" by simp
    have l: "collision_loop E cnt s
        = collision_loop E (Suc cnt) (collision_pass E (snd (collsion_detect E s)))"
      using c by (subst collision_loop.simps) simp
    from "1.IH" [OF c "1.prems"(1) le] show ?thesis
      unfolding l e by (simp add: collision_pass_frame a funpow_swap1)
  next
    case False
    with "1.prems"(2) have "cnt = MAX_COLLISIONS" by simp
    moreover have "collision_loop E cnt s = (cnt, snd (collsion_detect E s))"
      using False by (subst collision_loop.simps) simp
    ultimately show ?thesis by (simp add: a)
  qed
qed

lemma kick_env_kicks:
  "\<forall>pp pv h bv. \<exists>h'. collision_impulses kick_env pp pv h bv
      = (True, pp, map (map (\<lambda>v. v + 1)) pv, h', bv)"
  "\<forall>pp pv h bv. fst (collision_impulses kick_env pp pv h bv)"
  by (simp_all add: kick_env_def)

lemma shuffle_kick: "shuffle kick_env toy_world = Some shuffled_world"
  by (rule shuffle_result) code_simp

lemma kick_passes: "collision_passes kick_env s = MAX_COLLISIONS"
  by (simp add: collision_passes_def collision_loop_saturates kick_env_kicks)

lemma kick_exit:
  "prev_vel (snd (collision_loop kick_env 0 (before_collisions kick_env shuffled_world)))
     = [[6], [6], [6]]"
  "prev_pos (snd (collision_loop kick_env 0 (before_collisions kick_env shuffled_world)))
     = [[0], [2], [1]]"
  "sys_bVector (snd (collision_loop kick_env 0 (before_collisions kick_env shuffled_world)))
     = [0, 2, 1]"
proof -
  note a = collision_loop_arrays [OF kick_env_kicks(1), of 0 "before_collisions kick_env shuffled_world"]
  have b: "prev_vel (before_collisions kick_env shuffled_world) = [[0], [0], [0]]"
    "prev_pos (before_collisions kick_env shuffled_world) = [[0], [2], [1]]"
    "sys_bVector (before_collisions kick_env shuffled_world) = [0, 2, 1]"
    by (simp_all add: before_collisions_arrays shuffled_world_def toy_world_def toy_body_def)
  have n: "Suc (MAX_COLLISIONS - 0) = Suc (Suc (Suc (Suc (Suc (Suc 0)))))"
    by (simp add: MAX_COLLISIONS_def)
  from a show "prev_vel (snd (collision_loop kick_env 0 (before_collisions kick_env shuffled_world)))
     = [[6], [6], [6]]"
    unfolding n b by simp
  from a show "prev_pos (snd (collision_loop kick_env 0 (before_collisions kick_env shuffled_world)))
     = [[0], [2], [1]]"
    unfolding b by simp
  from a show "sys_bVector (snd (collision_loop kick_env 0 (before_collisions kick_env shuffled_world)))
     = [0, 2, 1]"
    unfolding b by simp
qed

subsection \<open>The order and the number of the calls of a tick\<close>

text \<open>
  Claim C1. In every tick, a shock-propagation pass (a call \<open>contact_detect(count, true)\<close>)
  runs only if the contact loop ended with its counter equal to \<open>MAX_CONTACTS = 10\<close>,
  and then exactly one such pass runs (so at most one), with \<open>count = 10\<close>. If the contact
  loop ended earlier, with a counter below 10, then its last \<open>contact_detect(count, false)\<close>
  applied no impulse and the tick has no shock-propagation pass.
\<close>

theorem shock_propagation_only_after_saturation:
  assumes "shuffle E s = Some s1"
  shows "idle_func E s = Some (tick_after_shuffle E s1)
     \<and> MAX_CONTACTS = 10
     \<and> contact_passes E s1 \<le> MAX_CONTACTS
     \<and> (contact_passes E s1 = MAX_CONTACTS \<longrightarrow>
          (\<exists>r. filter shock_call (new_calls s (tick_after_shuffle E s1))
                 = [Call_contact_detect MAX_CONTACTS True r]))
     \<and> (contact_passes E s1 < MAX_CONTACTS \<longrightarrow>
          filter shock_call (new_calls s (tick_after_shuffle E s1)) = []
          \<and> Call_contact_detect (contact_passes E s1) False False
               \<in> set (new_calls s (tick_after_shuffle E s1)))"
proof (intro conjI impI)
  show "idle_func E s = Some (tick_after_shuffle E s1)"
    by (rule idle_func_calls [OF assms])
  show "MAX_CONTACTS = 10"
    by (simp add: MAX_CONTACTS_def)
  show "contact_passes E s1 \<le> MAX_CONTACTS"
    using tick_after_shuffle_calls [of s1 E] by simp
  from tick_shock_calls [OF assms] obtain r where
    sh: "filter shock_call (new_calls s (tick_after_shuffle E s1))
           = (if contact_passes E s1 = MAX_CONTACTS
              then [Call_contact_detect MAX_CONTACTS True r] else [])"
    by blast
  show "\<exists>r. filter shock_call (new_calls s (tick_after_shuffle E s1))
                 = [Call_contact_detect MAX_CONTACTS True r]"
    if "contact_passes E s1 = MAX_CONTACTS"
    using sh that by auto
  show "filter shock_call (new_calls s (tick_after_shuffle E s1)) = []"
    if "contact_passes E s1 < MAX_CONTACTS"
    using sh that by simp
  show "Call_contact_detect (contact_passes E s1) False False
               \<in> set (new_calls s (tick_after_shuffle E s1))"
    if lt: "contact_passes E s1 < MAX_CONTACTS"
  proof -
    from tick_plain_detects [OF assms] lt
    have "filter plain_contact_detect (new_calls s (tick_after_shuffle E s1))
           = map (\<lambda>k. Call_contact_detect k False True) [0..<contact_passes E s1]
             @ [Call_contact_detect (contact_passes E s1) False False]"
      by auto
    then have "Call_contact_detect (contact_passes E s1) False False
        \<in> set (filter plain_contact_detect (new_calls s (tick_after_shuffle E s1)))"
      by simp
    then show ?thesis by simp
  qed
qed

text \<open>
  On the small system the contact loop ends at once and no shock pass runs; with
  detections that always apply an impulse it ends with counter 10 and one shock pass runs.
\<close>

theorem shock_propagation_only_after_saturation_witness:
  "shuffle toy_env toy_world = Some shuffled_world
   \<and> idle_func toy_env toy_world = Some (tick_after_shuffle toy_env shuffled_world)
   \<and> contact_passes toy_env shuffled_world < MAX_CONTACTS
   \<and> filter shock_call (new_calls toy_world (tick_after_shuffle toy_env shuffled_world)) = []
   \<and> Call_contact_detect 0 False False
        \<in> set (new_calls toy_world (tick_after_shuffle toy_env shuffled_world))
   \<and> shuffle busy_env toy_world = Some shuffled_world
   \<and> contact_passes busy_env shuffled_world = MAX_CONTACTS
   \<and> length (filter shock_call
        (new_calls toy_world (tick_after_shuffle busy_env shuffled_world))) = 1"
proof -
  note t = shock_propagation_only_after_saturation [OF shuffle_toy]
  note b = shock_propagation_only_after_saturation [OF shuffle_busy]
  have lt: "contact_passes toy_env shuffled_world < MAX_CONTACTS"
    by (simp add: toy_passes MAX_CONTACTS_def)
  have eq: "contact_passes busy_env shuffled_world = MAX_CONTACTS"
    by (rule busy_passes)
  from t have 1: "idle_func toy_env toy_world = Some (tick_after_shuffle toy_env shuffled_world)"
    by blast
  from t lt have 2: "filter shock_call
      (new_calls toy_world (tick_after_shuffle toy_env shuffled_world)) = []"
    by blast
  from t lt have 3: "Call_contact_detect 0 False False
        \<in> set (new_calls toy_world (tick_after_shuffle toy_env shuffled_world))"
    by (simp add: toy_passes)
  from b eq obtain r where "filter shock_call
      (new_calls toy_world (tick_after_shuffle busy_env shuffled_world))
        = [Call_contact_detect MAX_CONTACTS True r]"
    by blast
  then have 4: "length (filter shock_call
        (new_calls toy_world (tick_after_shuffle busy_env shuffled_world))) = 1"
    by simp
  from shuffle_toy shuffle_busy lt eq 1 2 3 4 show ?thesis
    by blast
qed

text \<open>
  Claim C4, amended. In every tick the contact loop calls \<open>contact_detect(count, false)\<close>
  for \<open>count = 0, \<dots>, m\<close>, where \<open>m \<le> MAX_CONTACTS = 10\<close> is the counter with which the
  loop ends: that is \<open>m + 1\<close> calls, at most 11. Every one of these calls is followed by
  one rebuild of the contact graph: inside the loop after a call that applied an impulse,
  after the loop for the last call. So consecutive calls are separated by a rebuild, the
  loop stops at the first call that applies no impulse or else after the call with
  \<open>count = 10\<close>, and the rebuild after the loop comes before any shock propagation. The
  first rebuild of the tick, with \<open>is_initial = true\<close>, comes before the loop.
\<close>

theorem contact_loop_detects_and_rebuilds:
  assumes "shuffle E s = Some s1"
  shows "idle_func E s = Some (tick_after_shuffle E s1)
     \<and> MAX_CONTACTS = 10
     \<and> contact_passes E s1 \<le> MAX_CONTACTS
     \<and> (\<exists>r r'. filter contact_call (new_calls s (tick_after_shuffle E s1))
           = Call_create_contact_graph True
             # concat (map (contact_pass_calls False) [0..<contact_passes E s1])
             @ [Call_contact_detect (contact_passes E s1) False r, Call_create_contact_graph False]
             @ (if contact_passes E s1 = MAX_CONTACTS
                then [Call_contact_detect MAX_CONTACTS True r'] else [])
         \<and> (contact_passes E s1 < MAX_CONTACTS \<longrightarrow> \<not> r))
     \<and> length (filter plain_contact_detect (new_calls s (tick_after_shuffle E s1)))
         = contact_passes E s1 + 1
     \<and> length (filter plain_contact_detect (new_calls s (tick_after_shuffle E s1)))
         \<le> MAX_CONTACTS + 1"
proof (intro conjI)
  show "idle_func E s = Some (tick_after_shuffle E s1)"
    by (rule idle_func_calls [OF assms])
  show "MAX_CONTACTS = 10"
    by (simp add: MAX_CONTACTS_def)
  show le: "contact_passes E s1 \<le> MAX_CONTACTS"
    using tick_after_shuffle_calls [of s1 E] by simp
  show "\<exists>r r'. filter contact_call (new_calls s (tick_after_shuffle E s1))
           = Call_create_contact_graph True
             # concat (map (contact_pass_calls False) [0..<contact_passes E s1])
             @ [Call_contact_detect (contact_passes E s1) False r, Call_create_contact_graph False]
             @ (if contact_passes E s1 = MAX_CONTACTS
                then [Call_contact_detect MAX_CONTACTS True r'] else [])
         \<and> (contact_passes E s1 < MAX_CONTACTS \<longrightarrow> \<not> r)"
    by (rule tick_contact_calls [OF assms])
  from tick_plain_detects [OF assms]
  show n: "length (filter plain_contact_detect (new_calls s (tick_after_shuffle E s1)))
         = contact_passes E s1 + 1"
    by auto
  from le show "length (filter plain_contact_detect (new_calls s (tick_after_shuffle E s1)))
         \<le> MAX_CONTACTS + 1"
    unfolding n by simp
qed

text \<open>
  On the small system the loop makes one call; with detections that always apply an
  impulse it ends with counter 10.
\<close>

theorem contact_loop_detects_and_rebuilds_witness:
  "shuffle toy_env toy_world = Some shuffled_world
   \<and> length (filter plain_contact_detect
        (new_calls toy_world (tick_after_shuffle toy_env shuffled_world))) = 1
   \<and> shuffle busy_env toy_world = Some shuffled_world
   \<and> contact_passes busy_env shuffled_world = MAX_CONTACTS
   \<and> length (filter plain_contact_detect
        (new_calls toy_world (tick_after_shuffle busy_env shuffled_world))) \<le> MAX_CONTACTS + 1"
proof -
  note t = contact_loop_detects_and_rebuilds [OF shuffle_toy]
  note b = contact_loop_detects_and_rebuilds [OF shuffle_busy]
  from t have 1: "length (filter plain_contact_detect
        (new_calls toy_world (tick_after_shuffle toy_env shuffled_world))) = 1"
    by (simp add: toy_passes)
  from b have 2: "length (filter plain_contact_detect
        (new_calls toy_world (tick_after_shuffle busy_env shuffled_world))) \<le> MAX_CONTACTS + 1"
    by blast
  from shuffle_toy shuffle_busy 1 2 busy_passes(1) [of shuffled_world] show ?thesis
    by blast
qed

text \<open>
  Claim C4 as stated (\<open>contact_detect(count, false)\<close> is repeated up to
  \<open>MAX_CONTACTS = 10\<close> times) fails when every detection applies an impulse: the tick then
  calls \<open>contact_detect(count, false)\<close> 11 times, for \<open>count = 0, \<dots>, 10\<close>, because the
  call is the left operand of \<open>&&\<close> and runs before \<open>count < MAX_CONTACTS\<close> is tested.
\<close>

theorem ten_contact_detects_counterexample:
  "idle_func busy_env toy_world = Some (tick_after_shuffle busy_env shuffled_world)
   \<and> MAX_CONTACTS = 10
   \<and> length (filter plain_contact_detect
        (new_calls toy_world (tick_after_shuffle busy_env shuffled_world))) = 11"
proof -
  have 1: "idle_func busy_env toy_world = Some (tick_after_shuffle busy_env shuffled_world)"
    by (rule idle_func_calls [OF shuffle_busy])
  have 2: "MAX_CONTACTS = 10"
    by (simp add: MAX_CONTACTS_def)
  from tick_plain_detects [OF shuffle_busy]
  have "length (filter plain_contact_detect
        (new_calls toy_world (tick_after_shuffle busy_env shuffled_world)))
      = contact_passes busy_env shuffled_world + 1"
    by auto
  then have 3: "length (filter plain_contact_detect
        (new_calls toy_world (tick_after_shuffle busy_env shuffled_world))) = 11"
    by (simp add: busy_passes MAX_CONTACTS_def)
  from 1 2 3 show ?thesis
    by blast
qed

text \<open>
  Claim C2. In every tick the collision loop runs its body \<open>n \<le> MAX_COLLISIONS = 5\<close>
  times. It starts with the scratch arrays holding the snapshot of the state after the
  shuffle. The body copies slot \<open>i\<close> of \<open>prev_pos\<close> and \<open>prev_vel\<close> into body \<open>i\<close> of the
  system, zeroes the forces, adds gravity and integrates every body, and leaves the arrays
  alone. Each pass follows a \<open>collsion_detect\<close> that reported an impulse; the loop ends
  with one more \<open>collsion_detect\<close>, which reported none unless \<open>n = 5\<close>. The state that
  leaves the loop is the state right after that last detection, also when the limit was
  reached: no further pass follows it. The restore after the loop (lines 641 to 644) then
  copies the arrays as the last detection left them into the bodies, so the velocities
  that the last detection stored in \<open>prev_vel\<close> (\<open>v has final collision info\<close>) are the
  velocities with which the tick goes on. In the log of the tick the calls of
  \<open>collsion_detect\<close> are \<open>n\<close> that returned true and a last one. The statements about
  the bodies assume that the body vector holds no body twice.
\<close>

theorem collision_loop_at_most_five_passes:
  assumes "shuffle E s = Some s1"
  shows "idle_func E s = Some (tick_after_shuffle E s1)
     \<and> MAX_COLLISIONS = 5
     \<and> collision_passes E s1 \<le> MAX_COLLISIONS
     \<and> snd (collision_loop E 0 (before_collisions E s1))
         = snd (collsion_detect E
             ((collision_round E ^^ collision_passes E s1) (before_collisions E s1)))
     \<and> (\<forall>k < collision_passes E s1.
           fst (collsion_detect E ((collision_round E ^^ k) (before_collisions E s1))))
     \<and> (collision_passes E s1 < MAX_COLLISIONS \<longrightarrow>
           \<not> fst (collsion_detect E
                ((collision_round E ^^ collision_passes E s1) (before_collisions E s1))))
     \<and> (\<exists>r. filter collsion_call (new_calls s (tick_after_shuffle E s1))
               = replicate (collision_passes E s1) (Call_collsion_detect True)
                 @ [Call_collsion_detect r])
     \<and> (\<forall>t. collision_round E t = collision_pass E (snd (collsion_detect E t))
            \<and> new_calls t (collision_pass E t) =
                concat (map (\<lambda>i. [Call_set_state_pos i, Call_set_state_vel i]) [0..<num_bodies t])
                @ [Call_zero_forces, Call_add_gravity]
                @ concat (map (\<lambda>i. [Call_integrate_vel i, Call_integrate_pos i])
                    [0..<num_bodies t]))
     \<and> prev_pos (before_collisions E s1) = map (\<lambda>a. pos_state (heap s1 a)) (sys_bVector s1)
     \<and> prev_vel (before_collisions E s1) = map (\<lambda>a. vel_state (heap s1 a)) (sys_bVector s1)
     \<and> (\<forall>t. sys_bVector (collision_pass E t) = sys_bVector t
            \<and> prev_pos (collision_pass E t) = prev_pos t
            \<and> prev_vel (collision_pass E t) = prev_vel t
            \<and> (distinct (sys_bVector t) \<longrightarrow>
                 (\<forall>i < num_bodies t.
                    heap (collision_pass E t) (sys_bVector t ! i)
                      = euler_step E (with_gravity E (restored t i)))
                 \<and> (\<forall>a. a \<notin> set (sys_bVector t) \<longrightarrow> heap (collision_pass E t) a = heap t a)))
     \<and> (\<forall>t. prev_pos (snd (collsion_detect E t))
               = fst (snd (collision_impulses E (prev_pos t) (prev_vel t) (heap t) (sys_bVector t)))
            \<and> prev_vel (snd (collsion_detect E t))
               = fst (snd (snd (collision_impulses E (prev_pos t) (prev_vel t) (heap t)
                   (sys_bVector t)))))
     \<and> contact_loop_entry E s1
         = before_contacts E
             (after_collisions E (snd (collision_loop E 0 (before_collisions E s1))))
     \<and> (\<forall>t. sys_bVector (after_collisions E t) = sys_bVector t
            \<and> prev_pos (after_collisions E t) = prev_pos t
            \<and> prev_vel (after_collisions E t) = prev_vel t
            \<and> (distinct (sys_bVector t) \<longrightarrow>
                 (\<forall>i < num_bodies t.
                    heap (after_collisions E t) (sys_bVector t ! i)
                      = with_gravity E (restored t i)
                    \<and> pos_state (heap (after_collisions E t) (sys_bVector t ! i)) = prev_pos t ! i
                    \<and> vel_state (heap (after_collisions E t) (sys_bVector t ! i)) = prev_vel t ! i)
                 \<and> (\<forall>a. a \<notin> set (sys_bVector t) \<longrightarrow> heap (after_collisions E t) a = heap t a)))"
proof (intro conjI allI)
  let ?s0 = "before_collisions E s1"
  show "idle_func E s = Some (tick_after_shuffle E s1)"
    by (rule idle_func_calls [OF assms])
  show "MAX_COLLISIONS = 5"
    by (simp add: MAX_COLLISIONS_def)
  show "collision_passes E s1 \<le> MAX_COLLISIONS"
    using tick_after_shuffle_calls [of s1 E] by simp
  note st = collision_loop_states [of E 0 ?s0, folded collision_passes_def]
  from st show "snd (collision_loop E 0 ?s0)
         = snd (collsion_detect E ((collision_round E ^^ collision_passes E s1) ?s0))"
    by simp
  from st show "k < collision_passes E s1 \<longrightarrow>
           fst (collsion_detect E ((collision_round E ^^ k) ?s0))" for k
    by simp
  from st show "collision_passes E s1 < MAX_COLLISIONS \<longrightarrow>
           \<not> fst (collsion_detect E ((collision_round E ^^ collision_passes E s1) ?s0))"
    by simp
  from tick_collsion_calls [OF assms]
  show "\<exists>r. filter collsion_call (new_calls s (tick_after_shuffle E s1))
               = replicate (collision_passes E s1) (Call_collsion_detect True)
                 @ [Call_collsion_detect r]"
    by blast
  show "collision_round E t = collision_pass E (snd (collsion_detect E t))" for t
    by (simp add: collision_round_def)
  show "new_calls t (collision_pass E t) =
                concat (map (\<lambda>i. [Call_set_state_pos i, Call_set_state_vel i]) [0..<num_bodies t])
                @ [Call_zero_forces, Call_add_gravity]
                @ concat (map (\<lambda>i. [Call_integrate_vel i, Call_integrate_pos i])
                    [0..<num_bodies t])" for t
    by (rule collision_pass_calls)
  show "prev_pos ?s0 = map (\<lambda>a. pos_state (heap s1 a)) (sys_bVector s1)"
    by (rule before_collisions_arrays)
  show "prev_vel ?s0 = map (\<lambda>a. vel_state (heap s1 a)) (sys_bVector s1)"
    by (rule before_collisions_arrays)
  show "sys_bVector (collision_pass E t) = sys_bVector t" for t
    by (rule collision_pass_frame)
  show "prev_pos (collision_pass E t) = prev_pos t" for t
    by (rule collision_pass_frame)
  show "prev_vel (collision_pass E t) = prev_vel t" for t
    by (rule collision_pass_frame)
  show "distinct (sys_bVector t) \<longrightarrow>
                 (\<forall>i < num_bodies t.
                    heap (collision_pass E t) (sys_bVector t ! i)
                      = euler_step E (with_gravity E (restored t i)))
                 \<and> (\<forall>a. a \<notin> set (sys_bVector t) \<longrightarrow> heap (collision_pass E t) a = heap t a)" for t
    by (simp add: collision_pass_heap)
  show "prev_pos (snd (collsion_detect E t))
               = fst (snd (collision_impulses E (prev_pos t) (prev_vel t) (heap t) (sys_bVector t)))"
    for t
    by (rule collsion_detect_arrays)
  show "prev_vel (snd (collsion_detect E t))
               = fst (snd (snd (collision_impulses E (prev_pos t) (prev_vel t) (heap t)
                   (sys_bVector t))))" for t
    by (rule collsion_detect_arrays)
  show "contact_loop_entry E s1
         = before_contacts E (after_collisions E (snd (collision_loop E 0 ?s0)))"
    by (simp add: contact_loop_entry_def Let_def)
  show "sys_bVector (after_collisions E t) = sys_bVector t" for t
    by (rule after_collisions_frame)
  show "prev_pos (after_collisions E t) = prev_pos t" for t
    by (rule after_collisions_frame)
  show "prev_vel (after_collisions E t) = prev_vel t" for t
    by (rule after_collisions_frame)
  show "distinct (sys_bVector t) \<longrightarrow>
                 (\<forall>i < num_bodies t.
                    heap (after_collisions E t) (sys_bVector t ! i)
                      = with_gravity E (restored t i)
                    \<and> pos_state (heap (after_collisions E t) (sys_bVector t ! i)) = prev_pos t ! i
                    \<and> vel_state (heap (after_collisions E t) (sys_bVector t ! i)) = prev_vel t ! i)
                 \<and> (\<forall>a. a \<notin> set (sys_bVector t) \<longrightarrow> heap (after_collisions E t) a = heap t a)" for t
    by (simp add: after_collisions_heap with_gravity_def restored_def)
qed

text \<open>
  On the small system no pass runs. With detections that always apply an impulse five
  passes run between six detections. When each detection adds 1 to every velocity in
  \<open>prev_vel\<close>, the box at index 1 leaves the collision phase with velocity 6: the
  impulse of the sixth detection, made after the fifth pass, is kept. One pass on the
  small system with slots holding position 9 and velocity 9 puts the box at index 1 back
  to them, gives it the force of gravity and integrates it to velocity 8 and position 17.
\<close>

theorem collision_loop_at_most_five_passes_witness:
  "shuffle toy_env toy_world = Some shuffled_world
   \<and> collision_passes toy_env shuffled_world = 0
   \<and> collision_passes toy_env shuffled_world < MAX_COLLISIONS
   \<and> \<not> fst (collsion_detect toy_env (before_collisions toy_env shuffled_world))
   \<and> shuffle busy_env toy_world = Some shuffled_world
   \<and> collision_passes busy_env shuffled_world = 5
   \<and> 4 < collision_passes busy_env shuffled_world
   \<and> fst (collsion_detect busy_env
        ((collision_round busy_env ^^ 4) (before_collisions busy_env shuffled_world)))
   \<and> length (filter collsion_call
        (new_calls toy_world (tick_after_shuffle busy_env shuffled_world))) = 6
   \<and> shuffle kick_env toy_world = Some shuffled_world
   \<and> collision_passes kick_env shuffled_world = 5
   \<and> prev_vel (before_collisions kick_env shuffled_world) = [[0], [0], [0]]
   \<and> distinct (sys_bVector (snd (collision_loop kick_env 0
        (before_collisions kick_env shuffled_world))))
   \<and> 1 < num_bodies (snd (collision_loop kick_env 0 (before_collisions kick_env shuffled_world)))
   \<and> sys_bVector (snd (collision_loop kick_env 0 (before_collisions kick_env shuffled_world))) ! 1
       = 2
   \<and> vel_state (heap (after_collisions kick_env
        (snd (collision_loop kick_env 0 (before_collisions kick_env shuffled_world)))) 2) = [6]
   \<and> pos_state (heap (after_collisions kick_env
        (snd (collision_loop kick_env 0 (before_collisions kick_env shuffled_world)))) 2) = [2]
   \<and> distinct (sys_bVector stale_world) \<and> 1 < num_bodies stale_world
   \<and> prev_pos stale_world ! 1 = [9] \<and> prev_vel stale_world ! 1 = [9]
   \<and> heap (collision_pass toy_env stale_world) (sys_bVector stale_world ! 1)
       = (toy_body 1)\<lparr>pos_state := [17], vel_state := [8], forces := [- 1]\<rparr>"
proof -
  note t = collision_loop_at_most_five_passes [OF shuffle_toy]
  note b = collision_loop_at_most_five_passes [OF shuffle_busy]
  note k = collision_loop_at_most_five_passes [OF shuffle_kick]
  let ?sb = "snd (collision_loop kick_env 0 (before_collisions kick_env shuffled_world))"
  have 1: "collision_passes toy_env shuffled_world = 0"
    by (rule toy_passes)
  then have 2: "collision_passes toy_env shuffled_world < MAX_COLLISIONS"
    by (simp add: MAX_COLLISIONS_def)
  from t 2 have "\<not> fst (collsion_detect toy_env
      ((collision_round toy_env ^^ collision_passes toy_env shuffled_world)
        (before_collisions toy_env shuffled_world)))"
    by blast
  then have 3: "\<not> fst (collsion_detect toy_env (before_collisions toy_env shuffled_world))"
    by (simp add: 1)
  have 4: "collision_passes busy_env shuffled_world = 5"
    by (simp add: busy_passes MAX_COLLISIONS_def)
  then have 5: "4 < collision_passes busy_env shuffled_world"
    by simp
  from b 5 have 6: "fst (collsion_detect busy_env
        ((collision_round busy_env ^^ 4) (before_collisions busy_env shuffled_world)))"
    by blast
  from b obtain r where "filter collsion_call
      (new_calls toy_world (tick_after_shuffle busy_env shuffled_world))
        = replicate (collision_passes busy_env shuffled_world) (Call_collsion_detect True)
          @ [Call_collsion_detect r]"
    by blast
  then have 7: "length (filter collsion_call
        (new_calls toy_world (tick_after_shuffle busy_env shuffled_world))) = 6"
    by (simp add: 4)
  have 8: "collision_passes kick_env shuffled_world = 5"
    by (simp add: kick_passes MAX_COLLISIONS_def)
  from k have "prev_vel (before_collisions kick_env shuffled_world)
      = map (\<lambda>a. vel_state (heap shuffled_world a)) (sys_bVector shuffled_world)"
    by blast
  then have 9: "prev_vel (before_collisions kick_env shuffled_world) = [[0], [0], [0]]"
    by (simp add: shuffled_world_def toy_world_def toy_body_def)
  have 10: "distinct (sys_bVector ?sb)" "1 < num_bodies ?sb" "sys_bVector ?sb ! 1 = 2"
    by (simp_all add: kick_exit num_bodies_def)
  from k have "distinct (sys_bVector ?sb) \<longrightarrow>
      (\<forall>i < num_bodies ?sb.
         vel_state (heap (after_collisions kick_env ?sb) (sys_bVector ?sb ! i)) = prev_vel ?sb ! i
         \<and> pos_state (heap (after_collisions kick_env ?sb) (sys_bVector ?sb ! i)) = prev_pos ?sb ! i)"
    by blast
  with 10 have "vel_state (heap (after_collisions kick_env ?sb) (sys_bVector ?sb ! 1))
        = prev_vel ?sb ! 1
      \<and> pos_state (heap (after_collisions kick_env ?sb) (sys_bVector ?sb ! 1)) = prev_pos ?sb ! 1"
    by blast
  then have 11: "vel_state (heap (after_collisions kick_env ?sb) 2) = [6]"
      "pos_state (heap (after_collisions kick_env ?sb) 2) = [2]"
    by (simp_all add: kick_exit)
  have 12: "distinct (sys_bVector stale_world)" "1 < num_bodies stale_world"
      "prev_pos stale_world ! 1 = [9]" "prev_vel stale_world ! 1 = [9]"
    by (simp_all add: stale_world_def toy_world_def num_bodies_def)
  from t have "distinct (sys_bVector stale_world) \<longrightarrow>
      (\<forall>i < num_bodies stale_world.
         heap (collision_pass toy_env stale_world) (sys_bVector stale_world ! i)
           = euler_step toy_env (with_gravity toy_env (restored stale_world i)))"
    by blast
  with 12 have "heap (collision_pass toy_env stale_world) (sys_bVector stale_world ! 1)
      = euler_step toy_env (with_gravity toy_env (restored stale_world 1))"
    by blast
  also have "\<dots> = (toy_body 1)\<lparr>pos_state := [17], vel_state := [8], forces := [- 1]\<rparr>"
    by (simp add: stale_world_def toy_world_def restored_def euler_step_def
        with_gravity_def toy_env_def toy_body_def)
  finally have 13: "heap (collision_pass toy_env stale_world) (sys_bVector stale_world ! 1)
      = (toy_body 1)\<lparr>pos_state := [17], vel_state := [8], forces := [- 1]\<rparr>" .
  from shuffle_toy shuffle_busy shuffle_kick 1 2 3 4 5 6 7 8 9 10 11 12 13 show ?thesis
    by blast
qed

text \<open>
  Claim C8, amended. Within one tick the random swaps come first: the first 30 calls of
  the tick are the calls of \<open>rand()\<close> of the 15 swap attempts, the snapshot starts right
  after them with \<open>get_state_pos\<close> for index 0, and no call of \<open>rand()\<close> follows. The
  snapshot therefore reads the body array as the swaps left it: slot \<open>i\<close> of \<open>prev_pos\<close>
  and \<open>prev_vel\<close> holds the state of the body that is at index \<open>i\<close> after the swaps.
\<close>

theorem shuffle_precedes_snapshot:
  assumes "shuffle E s = Some s1"
  shows "idle_func E s = Some (tick_after_shuffle E s1)
     \<and> (\<exists>rest. new_calls s (tick_after_shuffle E s1)
            = replicate 30 Call_rand @ [Call_get_state_pos 0, Call_get_state_vel 0] @ rest
          \<and> Call_rand \<notin> set rest)
     \<and> before_collisions E s1 = tentative_step E (snapshot (declare_buffers E s1))
     \<and> prev_pos (snapshot (declare_buffers E s1))
         = map (\<lambda>a. pos_state (heap s a)) (sys_bVector s1)
     \<and> prev_vel (snapshot (declare_buffers E s1))
         = map (\<lambda>a. vel_state (heap s a)) (sys_bVector s1)"
proof (intro conjI)
  show "idle_func E s = Some (tick_after_shuffle E s1)"
    by (rule idle_func_calls [OF assms])
  from tick_first_calls [OF shuffle_calls(3) [OF assms], of E] obtain rest where
    r: "new_calls s1 (tick_after_shuffle E s1)
           = [Call_get_state_pos 0, Call_get_state_vel 0] @ rest"
    by blast
  from tick_no_late_rand [of s1 E] have "Call_rand \<notin> set rest"
    unfolding r by simp
  with r idle_func_calls(3) [OF assms]
  show "\<exists>rest. new_calls s (tick_after_shuffle E s1)
            = replicate 30 Call_rand @ [Call_get_state_pos 0, Call_get_state_vel 0] @ rest
          \<and> Call_rand \<notin> set rest"
    by simp
  show "before_collisions E s1 = tentative_step E (snapshot (declare_buffers E s1))"
    by (simp add: before_collisions_def)
  from assms have "shuffle_loop E 0 s = Some s1"
    by (simp add: shuffle_def)
  from shuffle_loop_inv [OF this] have h: "heap s1 = heap s"
    by simp
  have l: "length (prev_pos (declare_buffers E s1)) = num_bodies (declare_buffers E s1)"
      "length (prev_vel (declare_buffers E s1)) = num_bodies (declare_buffers E s1)"
    by (simp_all add: declare_buffers_fields)
  from snapshot_buffers(1) [OF l] h
  show "prev_pos (snapshot (declare_buffers E s1))
         = map (\<lambda>a. pos_state (heap s a)) (sys_bVector s1)"
    by (simp add: declare_buffers_fields)
  from snapshot_buffers(2) [OF l] h
  show "prev_vel (snapshot (declare_buffers E s1))
         = map (\<lambda>a. vel_state (heap s a)) (sys_bVector s1)"
    by (simp add: declare_buffers_fields)
qed

text \<open>
  On the small system the swaps exchange the two boxes and the snapshot holds their
  positions in the new order.
\<close>

theorem shuffle_precedes_snapshot_witness:
  "shuffle toy_env toy_world = Some shuffled_world
   \<and> idle_func toy_env toy_world = Some (tick_after_shuffle toy_env shuffled_world)
   \<and> prev_pos (snapshot (declare_buffers toy_env shuffled_world)) = [[0], [2], [1]]
   \<and> prev_vel (snapshot (declare_buffers toy_env shuffled_world)) = [[0], [0], [0]]"
proof -
  note t = shuffle_precedes_snapshot [OF shuffle_toy]
  from t have 1: "idle_func toy_env toy_world = Some (tick_after_shuffle toy_env shuffled_world)"
    by blast
  from t have "prev_pos (snapshot (declare_buffers toy_env shuffled_world))
         = map (\<lambda>a. pos_state (heap toy_world a)) (sys_bVector shuffled_world)"
    by blast
  then have 2: "prev_pos (snapshot (declare_buffers toy_env shuffled_world)) = [[0], [2], [1]]"
    by (simp add: shuffled_world_def toy_world_def toy_body_def)
  from t have "prev_vel (snapshot (declare_buffers toy_env shuffled_world))
         = map (\<lambda>a. vel_state (heap toy_world a)) (sys_bVector shuffled_world)"
    by blast
  then have 3: "prev_vel (snapshot (declare_buffers toy_env shuffled_world)) = [[0], [0], [0]]"
    by (simp add: shuffled_world_def toy_world_def toy_body_def)
  from shuffle_toy 1 2 3 show ?thesis
    by blast
qed

text \<open>
  Claim C8 as stated (the snapshot is taken before the swaps) fails on the small system:
  the first 30 calls of the tick are \<open>rand()\<close> and the first \<open>get_state_pos\<close> is the 31st
  call. Before the swaps the positions in array order are 0, 1, 2; the snapshot holds
  0, 2, 1, the order after the swaps.
\<close>

theorem snapshot_before_swap_counterexample:
  "idle_func toy_env toy_world = Some (tick_after_shuffle toy_env shuffled_world)
   \<and> take 31 (new_calls toy_world (tick_after_shuffle toy_env shuffled_world))
       = replicate 30 Call_rand @ [Call_get_state_pos 0]
   \<and> sys_bVector toy_world = [0, 1, 2]
   \<and> map (\<lambda>a. pos_state (heap toy_world a)) (sys_bVector toy_world) = [[0], [1], [2]]
   \<and> sys_bVector shuffled_world = [0, 2, 1]
   \<and> prev_pos (snapshot (declare_buffers toy_env shuffled_world)) = [[0], [2], [1]]"
proof -
  have 1: "idle_func toy_env toy_world = Some (tick_after_shuffle toy_env shuffled_world)"
    by (rule idle_func_calls [OF shuffle_toy])
  from tick_first_calls [OF shuffle_calls(3) [OF shuffle_toy], of toy_env] obtain rest where
    "new_calls shuffled_world (tick_after_shuffle toy_env shuffled_world)
           = [Call_get_state_pos 0, Call_get_state_vel 0] @ rest"
    by blast
  with idle_func_calls(3) [OF shuffle_toy]
  have 2: "take 31 (new_calls toy_world (tick_after_shuffle toy_env shuffled_world))
       = replicate 30 Call_rand @ [Call_get_state_pos 0]"
    by simp
  have 3: "sys_bVector toy_world = [0, 1, 2]"
      "map (\<lambda>a. pos_state (heap toy_world a)) (sys_bVector toy_world) = [[0], [1], [2]]"
      "sys_bVector shuffled_world = [0, 2, 1]"
    by (simp_all add: shuffled_world_def toy_world_def toy_body_def)
  have 4: "prev_pos (snapshot (declare_buffers toy_env shuffled_world)) = [[0], [2], [1]]"
    by code_simp
  from 1 2 3 4 show ?thesis
    by blast
qed

end
